theory Spec2Isabelle
  imports Main "HOL-Library.Word"
begin

section \<open>Collage maker: the assembly engine of \<open>src/main.cpp\<close>\<close>

text \<open>
  The program is a Qt5 application. Its engine is the slot \<open>CollageWorker::process\<close>
  (crop, size cap, paint, save) and the three store-mutating members of \<open>CollageApp\<close>
  (\<open>onImageDropped\<close>, \<open>onGridSizeChanged\<close>, \<open>clearAll\<close>).

  C++ \<open>int\<close> values are modelled as \<open>int\<close>. Signed overflow is undefined in C++ and
  is not modelled: the grid size comes from a spin box with range 1..10 and a square
  image that Qt5 can allocate has a side far below \<open>INT_MAX / 10\<close>, so every product
  below stays inside 32 bits on the inputs the program can receive.
\<close>

subsection \<open>C++ integer arithmetic\<close>

definition INT_MAX :: int where
  "INT_MAX = 2147483647"

text \<open>The operators \<open>/\<close> and \<open>%\<close> of C++ on \<open>int\<close>: the quotient is truncated towards zero.\<close>

definition cdiv :: "int \<Rightarrow> int \<Rightarrow> int" where
  "cdiv a b = sgn a * sgn b * (\<bar>a\<bar> div \<bar>b\<bar>)"

definition cmod :: "int \<Rightarrow> int \<Rightarrow> int" where
  "cmod a b = a - b * cdiv a b"

subsection \<open>\<open>QImage\<close>\<close>

text \<open>
  A \<open>QImage\<close> is either the null image (\<open>QImage()\<close>, \<open>isNull()\<close>, width and height 0)
  or a raster of positive width and height whose pixels are read as \<open>QRgb\<close>, an unsigned
  32-bit value. The pixel function is only meaningful inside the raster.
\<close>

type_synonym QRgb = "32 word"

datatype QImage = Null | Image int int "int \<Rightarrow> int \<Rightarrow> QRgb"

fun isNull :: "QImage \<Rightarrow> bool" where
  "isNull Null = True"
| "isNull (Image w h p) = False"

fun width :: "QImage \<Rightarrow> int" where
  "width Null = 0"
| "width (Image w h p) = w"

fun height :: "QImage \<Rightarrow> int" where
  "height Null = 0"
| "height (Image w h p) = h"

fun pixel :: "QImage \<Rightarrow> int \<Rightarrow> int \<Rightarrow> QRgb" where
  "pixel Null x y = 0"
| "pixel (Image w h p) x y = p x y"

text \<open>
  What Qt guarantees of an image value: a non-null image has positive width and height,
  both C++ \<open>int\<close>s, and no raster of \<open>INT_MAX\<close> by \<open>INT_MAX\<close> pixels can be allocated.
\<close>

fun valid_image :: "QImage \<Rightarrow> bool" where
  "valid_image Null = True"
| "valid_image (Image w h p) = (1 \<le> w \<and> 1 \<le> h \<and> min w h < INT_MAX)"

text \<open>
  \<open>QImage(w, h, format)\<close>: null when a side is not positive; the data is uninitialised.
  A raster too large to allocate (Qt returns a null image) is not modelled.
\<close>

definition QImage_sized :: "int \<Rightarrow> int \<Rightarrow> QImage" where
  "QImage_sized w h = (if w \<le> 0 \<or> h \<le> 0 then Null else Image w h (\<lambda>x y. 0))"

definition white :: QRgb where
  "white = 0xFFFFFFFF"

fun fill :: "QRgb \<Rightarrow> QImage \<Rightarrow> QImage" where
  "fill c Null = Null"
| "fill c (Image w h p) = Image w h (\<lambda>x y. c)"

text \<open>
  \<open>QImage::copy(x, y, w, h)\<close>: the sub-area of the image; a null image gives a null image,
  the null rectangle (\<open>w = 0\<close> and \<open>h = 0\<close>) gives the whole image, an empty rectangle gives
  a null image, and pixels of the rectangle that lie outside the image are 0.
\<close>

fun copy :: "QImage \<Rightarrow> int \<Rightarrow> int \<Rightarrow> int \<Rightarrow> int \<Rightarrow> QImage" where
  "copy Null x y w h = Null"
| "copy (Image iw ih p) x y w h =
     (if w = 0 \<and> h = 0 then Image iw ih p
      else if w \<le> 0 \<or> h \<le> 0 then Null
      else Image w h (\<lambda>i j.
             if 0 \<le> x + i \<and> x + i < iw \<and> 0 \<le> y + j \<and> y + j < ih then p (x + i) (y + j) else 0))"

subsection \<open>\<open>cropCenterToSquare\<close> (lines 131-138 and 452-459)\<close>

definition cropCenterToSquare :: "QImage \<Rightarrow> QImage" where
  "cropCenterToSquare img =
     (let width = width img;
          height = height img;
          newSize = min width height;
          left = cdiv (width - newSize) 2;
          top = cdiv (height - newSize) 2
      in copy img left top newSize newSize)"

subsection \<open>Scaling, painting, saving and loading\<close>

text \<open>
  \<open>QImage::scaled(w, h, Qt::IgnoreAspectRatio, Qt::SmoothTransformation)\<close>: a null image
  stays null, an empty target size gives a null image, a target equal to the image's
  size gives the image itself, and otherwise the result has exactly the target size.
  The values of the resampling filter are a parameter (\<open>smooth\<close> below).

  \<open>QPainter::drawImage(x, y, src)\<close> on a \<open>Format_RGB32\<close> device: inside the device and
  inside the rectangle of \<open>src\<close> at \<open>(x, y)\<close>, the source pixel is composed over the device
  pixel (composition mode source-over, a parameter: \<open>over\<close> below); nothing else changes.
  A painter on a null device is inactive and a null source draws nothing.

  \<open>QImage::save\<close> returns false for a null image; otherwise whether the file can be
  written is the file system's answer (\<open>can_save\<close>). \<open>QImage(filePath)\<close> is \<open>decode\<close>:
  the decoded file, or the null image when loading fails.
\<close>

record env =
  decode :: "string \<Rightarrow> QImage"
  smooth :: "QImage \<Rightarrow> int \<Rightarrow> int \<Rightarrow> int \<Rightarrow> int \<Rightarrow> QRgb"
  over :: "QRgb \<Rightarrow> QRgb \<Rightarrow> QRgb"
  can_save :: "string \<Rightarrow> bool"

fun scaled :: "env \<Rightarrow> QImage \<Rightarrow> int \<Rightarrow> int \<Rightarrow> QImage" where
  "scaled e Null w h = Null"
| "scaled e (Image iw ih p) w h =
     (if w \<le> 0 \<or> h \<le> 0 then Null
      else if w = iw \<and> h = ih then Image iw ih p
      else Image w h (smooth e (Image iw ih p) w h))"

fun drawImage :: "env \<Rightarrow> QImage \<Rightarrow> int \<Rightarrow> int \<Rightarrow> QImage \<Rightarrow> QImage" where
  "drawImage e Null x y src = Null"
| "drawImage e (Image dw dh d) x y Null = Image dw dh d"
| "drawImage e (Image dw dh d) x y (Image sw sh s) =
     Image dw dh (\<lambda>px py.
       if 0 \<le> px \<and> px < dw \<and> 0 \<le> py \<and> py < dh
          \<and> x \<le> px \<and> px < x + sw \<and> y \<le> py \<and> py < y + sh
       then over e (s (px - x) (py - y)) (d px py) else d px py)"

definition save :: "env \<Rightarrow> QImage \<Rightarrow> string \<Rightarrow> bool" where
  "save e img file = (\<not> isNull img \<and> can_save e file)"

subsection \<open>The image store: \<open>std::map<std::pair<int,int>, ImageData>\<close>\<close>

text \<open>
  The map is kept as an association list in key order, the order in which \<open>std::map\<close>
  iterates. \<open>put\<close> is \<open>imageData[{row, col}] = value\<close>, \<open>map_of\<close> is \<open>find\<close>, \<open>[]\<close> is the
  map after \<open>clear()\<close>.
\<close>

record ImageData =
  path :: string
  image :: QImage

type_synonym coord = "int \<times> int"

type_synonym store = "(coord \<times> ImageData) list"

fun coord_less :: "coord \<Rightarrow> coord \<Rightarrow> bool" where
  "coord_less (r1, c1) (r2, c2) = (r1 < r2 \<or> (r1 = r2 \<and> c1 < c2))"

fun put :: "coord \<Rightarrow> ImageData \<Rightarrow> store \<Rightarrow> store" where
  "put k v [] = [(k, v)]"
| "put k v ((k', v') # kvs) =
     (if k = k' then (k, v) # kvs
      else if coord_less k k' then (k, v) # (k', v') # kvs
      else (k', v') # put k v kvs)"

text \<open>The members that \<open>CollageApp\<close> and \<open>CollageWorker\<close> share, and the worker's own.\<close>

record grid =
  imageData :: store
  gridSize :: int
  maxCollageSize :: int

record worker = grid +
  outputPath :: string

subsection \<open>\<open>CollageWorker::process\<close> (lines 44-123)\<close>

text \<open>
  The two signals of the worker. The message of \<open>finished\<close> is one of three texts: no
  images (line 74), saved with the collage size and the path (line 114), save error
  (line 117). No statement of the body throws in this model, so the \<open>catch\<close> of line 120
  has no branch.
\<close>

datatype message = NoImages | Saved int string | SaveError

datatype signal = progress int | finished bool message

record run =
  signals :: "signal list"
  raster :: "QImage option"
  written :: "(string \<times> QImage) option"

text \<open>Lines 46-56: the cells in row-major order, a null image for an empty cell.\<close>

definition build_images :: "'a grid_scheme \<Rightarrow> QImage list" where
  "build_images w =
     concat (map (\<lambda>i. map (\<lambda>j. case map_of (imageData w) (i, j) of
                                   Some d \<Rightarrow> image d
                                 | None \<Rightarrow> Null)
                          [0..gridSize w - 1])
                 [0..gridSize w - 1])"

text \<open>Lines 60-71: the crop pass, with \<open>processedImages\<close> and \<open>minSize\<close> as accumulators.\<close>

fun crop_loop :: "QImage list \<Rightarrow> QImage list \<times> int \<Rightarrow> QImage list \<times> int" where
  "crop_loop [] acc = acc"
| "crop_loop (img # imgs) (processedImages, minSize) =
     (if \<not> isNull img then
        let squared = cropCenterToSquare img
        in crop_loop imgs (processedImages @ [squared], min minSize (width squared))
      else crop_loop imgs (processedImages @ [Null], minSize))"

text \<open>
  Lines 80-84: the size cap, with \<open>N = gridSize\<close> and \<open>M = maxCollageSize\<close>; the result is
  \<open>(minSize, collageSize)\<close>.
\<close>

definition size_cap :: "int \<Rightarrow> int \<Rightarrow> int \<Rightarrow> int \<times> int" where
  "size_cap N M minSize =
     (let collageSize = N * minSize
      in if collageSize > M then
           let minSize' = cdiv M N
           in (minSize', N * minSize')
         else (minSize, collageSize))"

text \<open>
  Lines 93-105: the paint loop over index \<open>i\<close>, with \<open>N = gridSize\<close> and
  \<open>n = processedImages.size()\<close>; the state is the collage and the signals emitted so far.
\<close>

fun paint_loop ::
  "env \<Rightarrow> int \<Rightarrow> int \<Rightarrow> nat \<Rightarrow> nat \<Rightarrow> QImage list \<Rightarrow> QImage \<times> signal list \<Rightarrow> QImage \<times> signal list"
where
  "paint_loop e N minSize n i [] st = st"
| "paint_loop e N minSize n i (p # ps) (collage, sigs) =
     (let collage' =
            (if \<not> isNull p then
               let row = cdiv (int i) N;
                   col = cmod (int i) N;
                   resized = scaled e p minSize minSize
               in drawImage e collage (col * minSize) (row * minSize) resized
             else collage);
          sigs' = sigs @ [progress (60 + cdiv (int i * 35) (int n))]
      in paint_loop e N minSize n (Suc i) ps (collage', sigs'))"

definition process :: "env \<Rightarrow> worker \<Rightarrow> run" where
  "process e w =
     (let images = build_images w;
          sigs1 = [progress 20];
          (processedImages, minSize) = crop_loop images ([], INT_MAX)
      in if minSize = INT_MAX then
           \<lparr>signals = sigs1 @ [finished False NoImages], raster = None, written = None\<rparr>
         else
           let sigs2 = sigs1 @ [progress 40];
               (minSize', collageSize) = size_cap (gridSize w) (maxCollageSize w) minSize;
               sigs3 = sigs2 @ [progress 60];
               collage0 = fill white (QImage_sized collageSize collageSize);
               (collage1, sigs4) =
                 paint_loop e (gridSize w) minSize' (length processedImages) 0 processedImages
                   (collage0, sigs3);
               sigs5 = sigs4 @ [progress 95];
               saved = save e collage1 (outputPath w);
               sigs6 = sigs5 @ [progress 100]
           in \<lparr>signals = sigs6 @ [finished saved
                                     (if saved then Saved collageSize (outputPath w)
                                      else SaveError)],
               raster = Some collage1,
               written = (if saved then Some (outputPath w, collage1) else None)\<rparr>)"

text \<open>The values of the locals \<open>processedImages\<close> and \<open>minSize\<close> after the crop pass.\<close>

definition processedImages_of :: "'a grid_scheme \<Rightarrow> QImage list" where
  "processedImages_of w = fst (crop_loop (build_images w) ([], INT_MAX))"

definition minSize_of :: "'a grid_scheme \<Rightarrow> int" where
  "minSize_of w = snd (crop_loop (build_images w) ([], INT_MAX))"

text \<open>What the crop pass appends for one cell (the body of the loop of lines 63-71).\<close>

definition crop_cell :: "QImage \<Rightarrow> QImage" where
  "crop_cell img = (if \<not> isNull img then cropCenterToSquare img else Null)"

subsection \<open>Observing the notifications of a run\<close>

fun is_finished :: "signal \<Rightarrow> bool" where
  "is_finished (finished ok msg) = True"
| "is_finished (progress v) = False"

text \<open>The values of the \<open>progress\<close> signals, in the order of emission.\<close>

fun progress_values :: "signal list \<Rightarrow> int list" where
  "progress_values [] = []"
| "progress_values (progress v # ss) = v # progress_values ss"
| "progress_values (finished ok msg # ss) = progress_values ss"

text \<open>The value emitted by the paint loop at index \<open>k\<close> of \<open>n\<close> cells (line 104).\<close>

definition paint_progress :: "nat \<Rightarrow> nat \<Rightarrow> int" where
  "paint_progress n k = 60 + cdiv (int k * 35) (int n)"

subsection \<open>The region of a cell\<close>

text \<open>
  The pixels of cell \<open>i\<close> in the collage: the square of side \<open>cs\<close> at the offset that the
  paint loop computes for index \<open>i\<close> (lines 95, 96 and 101).
\<close>

definition in_cell :: "int \<Rightarrow> int \<Rightarrow> nat \<Rightarrow> int \<Rightarrow> int \<Rightarrow> bool" where
  "in_cell N cs i px py =
     (cmod (int i) N * cs \<le> px \<and> px < cmod (int i) N * cs + cs
      \<and> cdiv (int i) N * cs \<le> py \<and> py < cdiv (int i) N * cs + cs)"

subsection \<open>\<open>CollageApp\<close>: the members that change the store\<close>

text \<open>
  Of the window only what the store operations read is kept: the shared members, the
  dimension of the \<open>cells\<close> matrix (after \<open>recreateGrid\<close> it has \<open>gridSize\<close> rows of
  \<open>gridSize\<close> cells) and the message boxes shown so far. Thumbnails and layout are not
  modelled. The spin box keeps \<open>gridSize\<close> in 1..10.
\<close>

datatype dialog = NotAnImage | LoadFailed | AddAnImage

record app = grid +
  cells :: int
  dialogs :: "dialog list"

text \<open>
  \<open>QFileInfo::fileName\<close> is the path after its last \<open>/\<close>; \<open>QFileInfo::suffix\<close> is what
  follows the last \<open>.\<close> of the file name, empty when there is none. \<open>toLower\<close> is
  \<open>QString::toLower\<close> on the letters \<open>A\<close> to \<open>Z\<close>; other characters are left as they are.
\<close>

definition fileName :: "string \<Rightarrow> string" where
  "fileName file = rev (takeWhile (\<lambda>c. c \<noteq> CHR ''/'') (rev file))"

definition suffix :: "string \<Rightarrow> string" where
  "suffix file =
     (let name = fileName file
      in if CHR ''.'' \<in> set name then rev (takeWhile (\<lambda>c. c \<noteq> CHR ''.'') (rev name)) else [])"

definition lower_char :: "char \<Rightarrow> char" where
  "lower_char c =
     (let n = (of_char c :: nat) in if 65 \<le> n \<and> n \<le> 90 then char_of (n + 32) else c)"

definition toLower :: "string \<Rightarrow> string" where
  "toLower s = map lower_char s"

definition validExtensions :: "string list" where
  "validExtensions = [''jpg'', ''jpeg'', ''png'', ''bmp'', ''gif'', ''tiff'', ''webp'']"

text \<open>
  A member either returns, with the new state, or evaluates \<open>cells[row][col]\<close> outside the
  matrix: undefined behaviour, recorded with the state reached at that point
  (\<open>static_cast<size_t>\<close> of a negative index is out of range as well).
\<close>

datatype outcome = Returns app | OutOfRange app

text \<open>Lines 363-405, as far as the state above goes.\<close>

definition recreateGrid :: "app \<Rightarrow> app" where
  "recreateGrid a = a\<lparr>cells := gridSize a\<rparr>"

text \<open>Lines 407-434. There is no check of \<open>row\<close> and \<open>col\<close> against \<open>gridSize\<close>.\<close>

definition onImageDropped :: "env \<Rightarrow> app \<Rightarrow> int \<Rightarrow> int \<Rightarrow> string \<Rightarrow> outcome" where
  "onImageDropped e a row col filePath =
     (if toLower (suffix filePath) \<notin> set validExtensions then
        Returns (a\<lparr>dialogs := dialogs a @ [NotAnImage]\<rparr>)
      else
        let image = decode e filePath
        in if isNull image then Returns (a\<lparr>dialogs := dialogs a @ [LoadFailed]\<rparr>)
           else
             let a' = a\<lparr>imageData :=
                         put (row, col) \<lparr>path = filePath, image = image\<rparr> (imageData a)\<rparr>
             in if 0 \<le> row \<and> row < cells a' \<and> 0 \<le> col \<and> col < cells a'
                then Returns a' else OutOfRange a')"

text \<open>
  Lines 473-495. The loop of lines 487-493 goes through the saved entries in key order
  and hands only the path of each to \<open>onImageDropped\<close>, which decodes the file again.
\<close>

fun restore_loop :: "env \<Rightarrow> int \<Rightarrow> store \<Rightarrow> outcome \<Rightarrow> outcome" where
  "restore_loop e newSize [] r = r"
| "restore_loop e newSize (pair # oldData) (OutOfRange a) = OutOfRange a"
| "restore_loop e newSize (((row, col), d) # oldData) (Returns a) =
     (if row < newSize \<and> col < newSize
      then restore_loop e newSize oldData (onImageDropped e a row col (path d))
      else restore_loop e newSize oldData (Returns a))"

definition onGridSizeChanged :: "env \<Rightarrow> app \<Rightarrow> int \<Rightarrow> outcome" where
  "onGridSizeChanged e a newSize =
     (if newSize \<noteq> gridSize a then
        let oldData = imageData a;
            a1 = a\<lparr>gridSize := newSize, imageData := []\<rparr>;
            a2 = recreateGrid a1
        in restore_loop e newSize oldData (Returns a2)
      else Returns a)"

text \<open>Lines 497-501.\<close>

definition clearAll :: "app \<Rightarrow> app" where
  "clearAll a = recreateGrid (a\<lparr>imageData := []\<rparr>)"

subsection \<open>\<open>CollageApp::createCollage\<close> (lines 503-542): the job and its cancel button\<close>

text \<open>
  \<open>createCollage\<close> copies \<open>imageData\<close>, \<open>gridSize\<close> and \<open>maxCollageSize\<close> into a new worker,
  moves it to a new \<open>QThread\<close> and connects \<open>started\<close> to \<open>process\<close> (line 526) and the
  progress dialog's \<open>canceled\<close> to \<open>QThread::quit\<close> (line 539). \<open>quit\<close> asks the event loop
  of the thread to exit; the slot \<open>process\<close> runs to its end before the thread looks at
  that request, and \<open>process\<close> itself reads no cancellation state.
\<close>

record job =
  job_worker :: worker
  quit :: bool

definition createCollage :: "app \<Rightarrow> string \<Rightarrow> app \<times> job option" where
  "createCollage a file =
     (if imageData a = [] then (a\<lparr>dialogs := dialogs a @ [AddAnImage]\<rparr>, None)
      else if file = [] then (a, None)
      else (a, Some \<lparr>job_worker = \<lparr>imageData = imageData a, gridSize = gridSize a,
                                     maxCollageSize = maxCollageSize a, outputPath = file\<rparr>,
                     quit = False\<rparr>))"

text \<open>The cancel button, pressed at any time after the job was started.\<close>

definition canceled :: "job \<Rightarrow> job" where
  "canceled j = j\<lparr>quit := True\<rparr>"

text \<open>The thread: \<open>started\<close> runs \<open>process\<close>; the quit request does not reach it.\<close>

definition run_thread :: "env \<Rightarrow> job \<Rightarrow> run" where
  "run_thread e j = process e (job_worker j)"

subsection \<open>Entries and the files they came from\<close>

text \<open>
  Two predicates on a store entry: its coordinate is inside a grid of dimension \<open>n\<close>; and
  its file is still what was stored (accepted extension, decodes to the stored image),
  at a coordinate that is not negative.
\<close>

definition in_bounds :: "int \<Rightarrow> coord \<times> ImageData \<Rightarrow> bool" where
  "in_bounds n entry = (fst (fst entry) < n \<and> snd (fst entry) < n)"

definition on_disk :: "env \<Rightarrow> coord \<times> ImageData \<Rightarrow> bool" where
  "on_disk e entry =
     (toLower (suffix (path (snd entry))) \<in> set validExtensions
      \<and> decode e (path (snd entry)) = image (snd entry)
      \<and> \<not> isNull (image (snd entry))
      \<and> 0 \<le> fst (fst entry) \<and> 0 \<le> snd (fst entry))"

subsection \<open>Example inputs\<close>

text \<open>
  An environment in which \<open>a.png\<close> and \<open>b.png\<close> decode and \<open>out.png\<close> can be written,
  with a constant resampling filter and an opaque blend; and the same file system
  after the images have been deleted.
\<close>

definition env0 :: env where
  "env0 = \<lparr>decode = (\<lambda>f. if f = ''a.png'' then Image 2 2 (\<lambda>x y. 5)
                          else if f = ''b.png'' then Image 4 4 (\<lambda>x y. 9) else Null),
           smooth = (\<lambda>img w h x y. pixel img 0 0),
           over = (\<lambda>s d. s),
           can_save = (\<lambda>f. f = ''out.png'')\<rparr>"

definition env_deleted :: env where
  "env_deleted = env0\<lparr>decode := (\<lambda>f. Null)\<rparr>"

text \<open>Workers: the size-cap example, an empty grid, a cap below the grid size, two images.\<close>

definition worker_cap :: worker where
  "worker_cap = \<lparr>imageData = [((0, 0), \<lparr>path = ''big.png'', image = Image 2000 2000 (\<lambda>x y. 5)\<rparr>)],
                 gridSize = 3, maxCollageSize = 4000, outputPath = ''out.png''\<rparr>"

definition worker_empty :: worker where
  "worker_empty = \<lparr>imageData = [], gridSize = 2, maxCollageSize = 4000, outputPath = ''out.png''\<rparr>"

definition worker_tiny_cap :: worker where
  "worker_tiny_cap = \<lparr>imageData = [((0, 1), \<lparr>path = ''wide.png'', image = Image 6 4 (\<lambda>x y. 5)\<rparr>)],
                      gridSize = 2, maxCollageSize = 1, outputPath = ''out.png''\<rparr>"

definition worker_two :: worker where
  "worker_two = \<lparr>imageData = [((0, 0), \<lparr>path = ''a.png'', image = Image 2 2 (\<lambda>x y. 5)\<rparr>),
                              ((1, 1), \<lparr>path = ''b.png'', image = Image 4 4 (\<lambda>x y. 9)\<rparr>)],
                 gridSize = 2, maxCollageSize = 1000, outputPath = ''out.png''\<rparr>"

text \<open>Window states and a started job.\<close>

definition app_three :: app where
  "app_three = \<lparr>imageData = [((0, 0), \<lparr>path = ''a.png'', image = Image 2 2 (\<lambda>x y. 5)\<rparr>)],
                gridSize = 3, maxCollageSize = 4000, cells = 3, dialogs = []\<rparr>"

definition app_two :: app where
  "app_two = \<lparr>imageData = imageData worker_two, gridSize = 2, maxCollageSize = 1000,
              cells = 2, dialogs = []\<rparr>"

definition job_two :: job where
  "job_two = \<lparr>job_worker = worker_two, quit = False\<rparr>"

section \<open>Properties\<close>

subsection \<open>C++ division on non-negative operands\<close>

lemma cdiv_nonneg: "0 \<le> a \<Longrightarrow> 0 \<le> b \<Longrightarrow> cdiv a b = a div b"
  by (cases "a = 0"; cases "b = 0") (simp_all add: cdiv_def)

lemma cmod_nonneg: "0 \<le> a \<Longrightarrow> 0 \<le> b \<Longrightarrow> cmod a b = a mod b"
  by (simp add: cmod_def cdiv_nonneg minus_mult_div_eq_mod)

subsection \<open>The square crop\<close>

text \<open>
  C3. For every image of width \<open>W \<ge> 1\<close> and height \<open>H \<ge> 1\<close>, \<open>cropCenterToSquare\<close> returns
  an image of width and height \<open>S = min W H\<close>, and its pixel at \<open>(x, y)\<close>, for
  \<open>0 \<le> x, y < S\<close>, is the input's pixel at \<open>(x + (W - S) div 2, y + (H - S) div 2)\<close>, where
  \<open>div\<close> is floor division.
\<close>

theorem cropCenterToSquare_spec:
  assumes "1 \<le> W" and "1 \<le> H"
  shows "\<not> isNull (cropCenterToSquare (Image W H p))
       \<and> width (cropCenterToSquare (Image W H p)) = min W H
       \<and> height (cropCenterToSquare (Image W H p)) = min W H
       \<and> (\<forall>x y. 0 \<le> x \<and> x < min W H \<and> 0 \<le> y \<and> y < min W H \<longrightarrow>
            pixel (cropCenterToSquare (Image W H p)) x y
              = pixel (Image W H p) (x + (W - min W H) div 2) (y + (H - min W H) div 2))"
proof -
  let ?S = "min W H"
  have S: "1 \<le> ?S" using assms by simp
  have l: "cdiv (W - ?S) 2 = (W - ?S) div 2" and t: "cdiv (H - ?S) 2 = (H - ?S) div 2"
    by (simp_all add: cdiv_nonneg)
  have crop: "cropCenterToSquare (Image W H p)
      = Image ?S ?S (\<lambda>i j.
          if 0 \<le> (W - ?S) div 2 + i \<and> (W - ?S) div 2 + i < W
             \<and> 0 \<le> (H - ?S) div 2 + j \<and> (H - ?S) div 2 + j < H
          then p ((W - ?S) div 2 + i) ((H - ?S) div 2 + j) else 0)"
    using assms by (simp add: cropCenterToSquare_def Let_def l t min_le_iff_disj cong: if_cong)
  have inside: "0 \<le> (W - ?S) div 2 + x \<and> (W - ?S) div 2 + x < W
              \<and> 0 \<le> (H - ?S) div 2 + y \<and> (H - ?S) div 2 + y < H"
    if "0 \<le> x" "x < ?S" "0 \<le> y" "y < ?S" for x y
    using that by (auto simp: min_def split: if_splits)
  have px: "pixel (cropCenterToSquare (Image W H p)) x y
      = pixel (Image W H p) (x + (W - ?S) div 2) (y + (H - ?S) div 2)"
    if "0 \<le> x \<and> x < ?S \<and> 0 \<le> y \<and> y < ?S" for x y
  proof -
    have "0 \<le> (W - ?S) div 2 + x \<and> (W - ?S) div 2 + x < W
        \<and> 0 \<le> (H - ?S) div 2 + y \<and> (H - ?S) div 2 + y < H"
      using that inside by blast
    then show ?thesis
      unfolding crop by (simp add: add.commute)
  qed
  show ?thesis
    using px by (simp add: crop)
qed

theorem cropCenterToSquare_spec_witness:
  "(1::int) \<le> 5 \<and> (1::int) \<le> 3
   \<and> width (cropCenterToSquare (Image 5 3 (\<lambda>x y. word_of_int (10 * y + x)))) = 3
   \<and> height (cropCenterToSquare (Image 5 3 (\<lambda>x y. word_of_int (10 * y + x)))) = 3
   \<and> pixel (cropCenterToSquare (Image 5 3 (\<lambda>x y. word_of_int (10 * y + x)))) 0 2 = 21"
proof -
  have h1: "(1::int) \<le> 5" and h2: "(1::int) \<le> 3" by simp_all
  show ?thesis
    using cropCenterToSquare_spec [OF h1 h2, of "\<lambda>x y. word_of_int (10 * y + x)"]
    by simp
qed

subsection \<open>The crop pass\<close>

lemma crop_loop_eq:
  "crop_loop imgs (ps, m) =
     (ps @ map crop_cell imgs,
      fold min (map (\<lambda>img. width (cropCenterToSquare img)) (filter (\<lambda>img. \<not> isNull img) imgs)) m)"
proof (induction imgs arbitrary: ps m)
  case Nil
  then show ?case by simp
next
  case (Cons img imgs)
  show ?case
  proof (cases "isNull img")
    case True
    then show ?thesis by (simp add: Cons.IH crop_cell_def)
  next
    case False
    then show ?thesis
      by (simp add: Cons.IH crop_cell_def Let_def min.commute)
  qed
qed

lemma crop_valid:
  assumes "valid_image img" and "\<not> isNull img"
  shows "\<not> isNull (cropCenterToSquare img)"
    and "1 \<le> width (cropCenterToSquare img)"
    and "width (cropCenterToSquare img) < INT_MAX"
    and "width (cropCenterToSquare img) = min (width img) (height img)"
proof -
  obtain W H p where img: "img = Image W H p"
    using assms(2) by (cases img) simp_all
  have WH: "1 \<le> W" "1 \<le> H" "min W H < INT_MAX"
    using assms(1) by (simp_all add: img)
  have "cropCenterToSquare img
      = copy img (cdiv (W - min W H) 2) (cdiv (H - min W H) 2) (min W H) (min W H)"
    by (simp add: cropCenterToSquare_def img Let_def)
  then have c: "cropCenterToSquare img = Image (min W H) (min W H)
      (\<lambda>i j. pixel (copy img (cdiv (W - min W H) 2) (cdiv (H - min W H) 2) (min W H) (min W H)) i j)"
    using WH(1,2) by (simp add: img min_le_iff_disj)
  show "\<not> isNull (cropCenterToSquare img)" by (subst c) simp
  show "1 \<le> width (cropCenterToSquare img)" using WH(1,2) by (subst c) simp
  show "width (cropCenterToSquare img) < INT_MAX" using WH(3) by (subst c) simp
  show "width (cropCenterToSquare img) = min (width img) (height img)"
    by (subst c) (simp add: img)
qed

lemma length_build_images: "length (build_images w) = nat (gridSize w) * nat (gridSize w)"
proof -
  have "length (concat (map (\<lambda>i. map (f i) ys) xs)) = length xs * length ys"
    for f :: "int \<Rightarrow> int \<Rightarrow> QImage" and xs ys :: "int list"
    by (induction xs) simp_all
  then show ?thesis
    by (simp add: build_images_def)
qed

lemma fold_min_Min: "fold min xs (m::int) = Min (insert m (set xs))"
proof (induction xs arbitrary: m)
  case Nil
  then show ?case by simp
next
  case (Cons x xs)
  have "fold min (x # xs) m = Min (insert (min x m) (set xs))"
    by (simp add: Cons.IH)
  also have "\<dots> = Min (insert m (set (x # xs)))"
    by (cases "set xs = {}") (simp_all add: min.commute min.left_commute Min_insert2 min.assoc)
  finally show ?case .
qed

subsection \<open>\<open>process\<close>: the two paths\<close>

lemma processedImages_of_eq: "processedImages_of w = map crop_cell (build_images w)"
  by (simp add: processedImages_of_def crop_loop_eq)

lemma minSize_of_eq:
  "minSize_of w = Min (insert INT_MAX
     ((\<lambda>img. width (cropCenterToSquare img)) ` {img \<in> set (build_images w). \<not> isNull img}))"
  by (simp add: minSize_of_def crop_loop_eq fold_min_Min)

lemma minSize_of_all_null:
  assumes "\<forall>img\<in>set (build_images w). isNull img"
  shows "minSize_of w = INT_MAX"
proof -
  have "{img \<in> set (build_images w). \<not> isNull img} = {}"
    using assms by auto
  then show ?thesis
    unfolding minSize_of_eq by (simp only: image_empty Min_singleton)
qed

lemma present_squares:
  assumes valid: "\<forall>img\<in>set (build_images w). valid_image img"
  shows "{width s |s. s \<in> set (processedImages_of w) \<and> \<not> isNull s}
       = (\<lambda>img. width (cropCenterToSquare img)) ` {img \<in> set (build_images w). \<not> isNull img}"
    (is "?L = ?R")
proof
  show "?L \<subseteq> ?R"
  proof
    fix v assume "v \<in> ?L"
    then obtain img where img: "img \<in> set (build_images w)" and nn: "\<not> isNull (crop_cell img)"
      and v: "v = width (crop_cell img)"
      by (auto simp: processedImages_of_eq)
    from nn have "\<not> isNull img" by (auto simp: crop_cell_def split: if_splits)
    then show "v \<in> ?R" using img v by (auto simp: crop_cell_def)
  qed
  show "?R \<subseteq> ?L"
  proof
    fix v assume "v \<in> ?R"
    then obtain img where img: "img \<in> set (build_images w)" and nn: "\<not> isNull img"
      and v: "v = width (cropCenterToSquare img)"
      by auto
    have "\<not> isNull (crop_cell img)"
      using crop_valid(1) valid img nn by (simp add: crop_cell_def)
    moreover have "crop_cell img \<in> set (processedImages_of w)"
      using img by (simp add: processedImages_of_eq)
    moreover have "v = width (crop_cell img)" using v nn by (simp add: crop_cell_def)
    ultimately show "v \<in> ?L" by blast
  qed
qed

lemma minSize_of_present:
  assumes present: "\<exists>img\<in>set (build_images w). \<not> isNull img"
    and valid: "\<forall>img\<in>set (build_images w). valid_image img"
  shows "minSize_of w = Min {width s |s. s \<in> set (processedImages_of w) \<and> \<not> isNull s}"
    and "1 \<le> minSize_of w" and "minSize_of w < INT_MAX"
proof -
  let ?S = "(\<lambda>img. width (cropCenterToSquare img)) ` {img \<in> set (build_images w). \<not> isNull img}"
  have fin: "finite ?S" by simp
  have ne: "?S \<noteq> {}" using present by auto
  have bounds: "1 \<le> v \<and> v < INT_MAX" if "v \<in> ?S" for v
    using that valid crop_valid(2,3) by auto
  have "Min ?S \<in> ?S" using fin ne by (rule Min_in)
  then have mb: "1 \<le> Min ?S \<and> Min ?S < INT_MAX" using bounds by blast
  have "Min (insert INT_MAX ?S) = min INT_MAX (Min ?S)"
    using fin ne by (rule Min_insert)
  also have "\<dots> = Min ?S" using mb by (simp only: min_def) simp
  finally have m: "minSize_of w = Min ?S"
    by (simp only: minSize_of_eq)
  show "minSize_of w = Min {width s |s. s \<in> set (processedImages_of w) \<and> \<not> isNull s}"
    using m present_squares [OF valid] by simp
  show "1 \<le> minSize_of w" "minSize_of w < INT_MAX" using m mb by simp_all
qed

lemma gridSize_present:
  assumes "\<exists>img\<in>set (build_images w). \<not> isNull img"
  shows "1 \<le> gridSize w"
proof (rule ccontr)
  assume "\<not> 1 \<le> gridSize w"
  then have "length (build_images w) = 0" by (simp add: length_build_images)
  then show False using assms by simp
qed

lemma drawImage_dims:
  "width (drawImage e c x y s) = width c"
  "height (drawImage e c x y s) = height c"
  "isNull (drawImage e c x y s) = isNull c"
  by (cases c; cases s; simp)+

lemma paint_loop_dims:
  "width (fst (paint_loop e N cs n i ps (c, sigs))) = width c
   \<and> height (fst (paint_loop e N cs n i ps (c, sigs))) = height c
   \<and> isNull (fst (paint_loop e N cs n i ps (c, sigs))) = isNull c"
  by (induction ps arbitrary: i c sigs) (simp_all add: Let_def drawImage_dims)

lemma process_no_minSize:
  assumes "minSize_of w = INT_MAX"
  shows "process e w = \<lparr>signals = [progress 20, finished False NoImages], raster = None, written = None\<rparr>"
  using assms by (simp add: process_def minSize_of_def Let_def case_prod_beta)

lemma process_minSize:
  assumes "minSize_of w \<noteq> INT_MAX"
  shows "process e w =
    (let cap = size_cap (gridSize w) (maxCollageSize w) (minSize_of w);
         res = paint_loop e (gridSize w) (fst cap) (length (processedImages_of w)) 0 (processedImages_of w)
                 (fill white (QImage_sized (snd cap) (snd cap)), [progress 20, progress 40, progress 60]);
         saved = save e (fst res) (outputPath w)
     in \<lparr>signals = snd res @ [progress 95, progress 100,
            finished saved (if saved then Saved (snd cap) (outputPath w) else SaveError)],
         raster = Some (fst res),
         written = (if saved then Some (outputPath w, fst res) else None)\<rparr>)"
  using assms
  by (simp add: process_def minSize_of_def processedImages_of_def Let_def case_prod_beta)

lemma size_cap_nonneg:
  assumes "1 \<le> N" and "0 \<le> M" and "1 \<le> m"
  shows "size_cap N M m = (if N * m > M then (M div N, N * (M div N)) else (m, N * m))"
    and "0 \<le> fst (size_cap N M m)" and "0 \<le> snd (size_cap N M m)"
  using assms by (simp_all add: size_cap_def Let_def cdiv_nonneg pos_imp_zdiv_nonneg_iff)

lemma dims_fill_sized:
  "0 \<le> s \<Longrightarrow> width (fill white (QImage_sized s s)) = s"
  "0 \<le> s \<Longrightarrow> height (fill white (QImage_sized s s)) = s"
  by (simp_all add: QImage_sized_def)

subsection \<open>The products of the size cap stay inside \<open>int\<close>\<close>

text \<open>
  For a grid size from the spin box, a cell size of at most \<open>INT_MAX div 10\<close> and a cap
  that is an \<open>int\<close>, the products and the quotient of lines 80-83 have no overflow.
\<close>

lemma size_cap_in_int_range:
  assumes "1 \<le> N" and "N \<le> 10" and "1 \<le> m" and "m \<le> INT_MAX div 10"
    and "0 \<le> M" and "M \<le> INT_MAX"
  shows "0 \<le> N * m \<and> N * m \<le> INT_MAX"
    and "0 \<le> fst (size_cap N M m) \<and> fst (size_cap N M m) \<le> INT_MAX"
    and "0 \<le> snd (size_cap N M m) \<and> snd (size_cap N M m) \<le> INT_MAX"
proof -
  have a: "N * m \<le> 10 * m"
    using assms(2,3) by (intro mult_right_mono) simp_all
  have b: "10 * m \<le> INT_MAX"
    using assms(4) by (simp add: INT_MAX_def)
  have c: "0 \<le> N * m"
    using assms(1,3) by simp
  show nm: "0 \<le> N * m \<and> N * m \<le> INT_MAX"
    using a b c by linarith
  have q0: "0 \<le> M div N"
    using assms(1,5) by (simp add: pos_imp_zdiv_nonneg_iff)
  have "N * (M div N) = M - M mod N"
    by (simp add: minus_mod_eq_mult_div)
  moreover have "0 \<le> M mod N"
    using assms(1) by simp
  ultimately have le: "N * (M div N) \<le> M"
    by simp
  have "1 * (M div N) \<le> N * (M div N)"
    using assms(1) q0 by (intro mult_right_mono) simp_all
  then have q: "0 \<le> M div N" "M div N \<le> M"
    using q0 le by simp_all
  have p: "0 \<le> N * (M div N) \<and> N * (M div N) \<le> INT_MAX"
    using assms(1,6) q0 le by simp
  note sc = size_cap_nonneg(1) [OF assms(1,5,3)]
  show "0 \<le> fst (size_cap N M m) \<and> fst (size_cap N M m) \<le> INT_MAX"
    using q assms(3,4,6) by (simp add: sc INT_MAX_def)
  show "0 \<le> snd (size_cap N M m) \<and> snd (size_cap N M m) \<le> INT_MAX"
    using nm p by (simp add: sc)
qed

subsection \<open>No image present\<close>

text \<open>
  C4. When no cell of the sequence holds an image, \<open>process\<close> reports failure with the
  no-images message: the signals are \<open>progress 20\<close> and \<open>finished False NoImages\<close>, no
  raster is allocated and no file is written.
\<close>

theorem process_no_images:
  assumes "\<forall>img\<in>set (build_images w). isNull img"
  shows "process e w
       = \<lparr>signals = [progress 20, finished False NoImages], raster = None, written = None\<rparr>"
  using assms by (simp add: process_no_minSize minSize_of_all_null)

theorem process_no_images_witness:
  "list_all isNull (build_images worker_empty)
   \<and> signals (process env0 worker_empty) = [progress 20, finished False NoImages]
   \<and> raster (process env0 worker_empty) = None
   \<and> written (process env0 worker_empty) = None"
proof -
  have h: "\<forall>img\<in>set (build_images worker_empty). isNull img"
    by (simp add: build_images_def worker_empty_def upto.simps)
  show ?thesis
    using h process_no_images [OF h, of env0] by (simp add: list_all_iff)
qed

subsection \<open>The common cell size and the size cap\<close>

text \<open>
  C1. When at least one cell holds an image, \<open>minSize\<close> after the crop pass is the minimum
  width among the present square images; when \<open>N * minSize\<close> exceeds the cap \<open>M\<close> the cell
  size becomes \<open>M div N\<close>; and the raster has width and height \<open>N\<close> times the final cell
  size. The cap is a pixel count, \<open>0 \<le> M\<close>. The witness is the case \<open>N = 3\<close>, cell size
  2000, \<open>M = 4000\<close>: cell size 1333 and a raster of 3999 by 3999.
\<close>

theorem composite_cell_size:
  assumes present: "\<exists>img\<in>set (build_images w). \<not> isNull img"
    and valid: "\<forall>img\<in>set (build_images w). valid_image img"
    and cap: "0 \<le> maxCollageSize w"
  shows "minSize_of w = Min {width s |s. s \<in> set (processedImages_of w) \<and> \<not> isNull s}
       \<and> size_cap (gridSize w) (maxCollageSize w) (minSize_of w)
           = (if gridSize w * minSize_of w > maxCollageSize w
              then (maxCollageSize w div gridSize w,
                    gridSize w * (maxCollageSize w div gridSize w))
              else (minSize_of w, gridSize w * minSize_of w))
       \<and> (\<exists>c. raster (process e w) = Some c
              \<and> width c = snd (size_cap (gridSize w) (maxCollageSize w) (minSize_of w))
              \<and> height c = snd (size_cap (gridSize w) (maxCollageSize w) (minSize_of w)))"
proof -
  note m = minSize_of_present [OF present valid]
  have N: "1 \<le> gridSize w" using present by (rule gridSize_present)
  note sc = size_cap_nonneg [OF N cap m(2)]
  let ?side = "snd (size_cap (gridSize w) (maxCollageSize w) (minSize_of w))"
  have "minSize_of w \<noteq> INT_MAX" using m(3) by simp
  then have "raster (process e w)
      = Some (fst (paint_loop e (gridSize w)
                (fst (size_cap (gridSize w) (maxCollageSize w) (minSize_of w)))
                (length (processedImages_of w)) 0 (processedImages_of w)
                (fill white (QImage_sized ?side ?side),
                 [progress 20, progress 40, progress 60])))"
    by (simp add: process_minSize Let_def)
  moreover have "width (fst (paint_loop e (gridSize w)
                (fst (size_cap (gridSize w) (maxCollageSize w) (minSize_of w)))
                (length (processedImages_of w)) 0 (processedImages_of w)
                (fill white (QImage_sized ?side ?side),
                 [progress 20, progress 40, progress 60]))) = ?side"
    by (simp only: paint_loop_dims dims_fill_sized [OF sc(3)])
  moreover have "height (fst (paint_loop e (gridSize w)
                (fst (size_cap (gridSize w) (maxCollageSize w) (minSize_of w)))
                (length (processedImages_of w)) 0 (processedImages_of w)
                (fill white (QImage_sized ?side ?side),
                 [progress 20, progress 40, progress 60]))) = ?side"
    by (simp only: paint_loop_dims dims_fill_sized [OF sc(3)])
  ultimately have "\<exists>c. raster (process e w) = Some c \<and> width c = ?side \<and> height c = ?side"
    by blast
  then show ?thesis using m(1) sc(1) by blast
qed

theorem composite_cell_size_witness:
  "(\<exists>img\<in>set (build_images worker_cap). \<not> isNull img)
   \<and> list_all valid_image (build_images worker_cap)
   \<and> 0 \<le> maxCollageSize worker_cap
   \<and> minSize_of worker_cap = 2000
   \<and> size_cap 3 4000 2000 = (1333, 3999)
   \<and> (\<exists>c. raster (process env0 worker_cap) = Some c \<and> width c = 3999 \<and> height c = 3999)"
proof -
  have b: "build_images worker_cap
      = [Image 2000 2000 (\<lambda>x y. 5), Null, Null, Null, Null, Null, Null, Null, Null]"
    by (simp add: build_images_def worker_cap_def upto.simps)
  have h1: "\<exists>img\<in>set (build_images worker_cap). \<not> isNull img"
    by (simp add: b)
  have h2: "\<forall>img\<in>set (build_images worker_cap). valid_image img"
    by (simp add: b INT_MAX_def)
  have h3: "0 \<le> maxCollageSize worker_cap"
    by (simp add: worker_cap_def)
  have m: "minSize_of worker_cap = 2000"
    by (simp add: minSize_of_def b cropCenterToSquare_def Let_def INT_MAX_def)
  have g: "gridSize worker_cap = 3" "maxCollageSize worker_cap = 4000"
    by (simp_all add: worker_cap_def)
  have s: "size_cap 3 4000 2000 = (1333, 3999)"
    by (simp add: size_cap_def Let_def cdiv_def)
  from composite_cell_size [OF h1 h2 h3, of env0]
  obtain c where "raster (process env0 worker_cap) = Some c"
    and "width c = snd (size_cap (gridSize worker_cap) (maxCollageSize worker_cap)
                          (minSize_of worker_cap))"
    and "height c = snd (size_cap (gridSize worker_cap) (maxCollageSize worker_cap)
                           (minSize_of worker_cap))"
    by blast
  then have "\<exists>c. raster (process env0 worker_cap) = Some c \<and> width c = 3999 \<and> height c = 3999"
    by (simp add: g m s)
  then show ?thesis
    using h1 h2 h3 m s by (simp add: list_all_iff)
qed

subsection \<open>Progress and the terminal notification\<close>

lemma paint_loop_signals:
  "snd (paint_loop e N cs n i ps (c, sigs))
     = sigs @ map (\<lambda>k. progress (paint_progress n k)) [i..<i + length ps]"
proof (induction ps arbitrary: i c sigs)
  case Nil
  then show ?case by simp
next
  case (Cons p ps)
  have "[i..<i + length (p # ps)] = i # [Suc i..<Suc i + length ps]"
    by (simp add: upt_rec)
  then show ?case
    by (simp add: Cons.IH Let_def paint_progress_def)
qed

lemma progress_values_append:
  "progress_values (xs @ ys) = progress_values xs @ progress_values ys"
  by (induction xs rule: progress_values.induct) simp_all

lemma progress_values_map: "progress_values (map (\<lambda>k. progress (f k)) ks) = map f ks"
  by (induction ks) simp_all

lemma filter_finished_map: "filter is_finished (map (\<lambda>k. progress (f k)) ks) = []"
  by (induction ks) simp_all

lemma zdiv_less_bound:
  assumes "0 < (n::int)" and "a < c * n"
  shows "a div n < c"
proof -
  have "(a + (- c) * n) div n = - c + a div n"
    using assms(1) by (subst div_mult_self1) simp_all
  moreover have "(a + (- c) * n) div n < 0"
    using assms by (simp add: pos_imp_zdiv_neg_iff)
  ultimately show ?thesis by simp
qed

lemma paint_progress_bounds:
  assumes "k < n"
  shows "60 \<le> paint_progress n k" and "paint_progress n k \<le> 94"
proof -
  have d: "cdiv (int k * 35) (int n) = (int k * 35) div int n"
    by (simp add: cdiv_nonneg)
  have "0 \<le> (int k * 35) div int n"
    using assms by (simp add: pos_imp_zdiv_nonneg_iff)
  then show "60 \<le> paint_progress n k" by (simp add: paint_progress_def d)
  have "int k * 35 < 35 * int n" using assms by simp
  then have "(int k * 35) div int n < 35"
    using assms by (intro zdiv_less_bound) simp_all
  then show "paint_progress n k \<le> 94" by (simp add: paint_progress_def d)
qed

lemma paint_progress_mono:
  assumes "j \<le> k"
  shows "paint_progress n j \<le> paint_progress n k"
proof -
  have "(int j * 35) div int n \<le> (int k * 35) div int n"
  proof (cases "n = 0")
    case True
    then show ?thesis by simp
  next
    case False
    then show ?thesis using assms by (intro zdiv_mono1) simp_all
  qed
  then show ?thesis by (simp add: paint_progress_def cdiv_nonneg)
qed

lemma sorted_paint_progress: "sorted (map (paint_progress n) [0..<n])"
  by (simp add: sorted_map sorted_wrt_iff_nth_less paint_progress_mono)

lemma signals_no_images:
  assumes "minSize_of w = INT_MAX"
  shows "signals (process e w) = [progress 20, finished False NoImages]"
    and "raster (process e w) = None" and "written (process e w) = None"
  using assms by (simp_all add: process_no_minSize)

lemma signals_painted:
  assumes "minSize_of w \<noteq> INT_MAX"
  shows "\<exists>ok msg. signals (process e w)
           = [progress 20, progress 40, progress 60]
             @ map (\<lambda>k. progress (paint_progress (length (processedImages_of w)) k))
                   [0..<length (processedImages_of w)]
             @ [progress 95, progress 100, finished ok msg]"
    and "raster (process e w) \<noteq> None"
  using assms by (simp_all add: process_minSize Let_def paint_loop_signals)

text \<open>
  C7. In every run of \<open>process\<close> the progress values are emitted in non-decreasing order
  and lie between 0 and 100; the value 100 is emitted only when the raster has been
  allocated and the save attempted, directly before the terminal \<open>finished\<close> signal;
  and \<open>finished\<close> is emitted exactly once, as the last signal.
\<close>

theorem process_notifications:
  "sorted (progress_values (signals (process e w)))
   \<and> (\<forall>v\<in>set (progress_values (signals (process e w))). 0 \<le> v \<and> v \<le> 100)
   \<and> (100 \<in> set (progress_values (signals (process e w))) \<longrightarrow>
        raster (process e w) \<noteq> None
        \<and> (\<exists>ok msg. drop (length (signals (process e w)) - 2) (signals (process e w))
                       = [progress 100, finished ok msg]))
   \<and> length (filter is_finished (signals (process e w))) = 1
   \<and> is_finished (last (signals (process e w)))"
proof (cases "minSize_of w = INT_MAX")
  case True
  then show ?thesis by (simp add: signals_no_images)
next
  case False
  let ?n = "length (processedImages_of w)"
  let ?vs = "map (paint_progress ?n) [0..<?n]"
  from signals_painted [OF False, of e] obtain ok msg
    where sigs: "signals (process e w)
           = [progress 20, progress 40, progress 60]
             @ map (\<lambda>k. progress (paint_progress ?n k)) [0..<?n]
             @ [progress 95, progress 100, finished ok msg]"
      and r: "raster (process e w) \<noteq> None"
    by blast
  have pv: "progress_values (signals (process e w)) = [20, 40, 60] @ ?vs @ [95, 100]"
    by (simp add: sigs progress_values_append progress_values_map)
  have b: "60 \<le> v \<and> v \<le> 94" if "v \<in> set ?vs" for v
    using that paint_progress_bounds by auto
  have s: "sorted ([20, 40, 60] @ ?vs @ [95, 100])"
    using b sorted_paint_progress [of ?n] by (fastforce simp: sorted_append)
  have r100: "\<forall>v\<in>set ([20, 40, 60] @ ?vs @ [95, 100]). 0 \<le> v \<and> v \<le> 100"
    using b by fastforce
  have d: "drop (length (signals (process e w)) - 2) (signals (process e w))
             = [progress 100, finished ok msg]"
    by (simp add: sigs)
  have f: "filter is_finished (signals (process e w)) = [finished ok msg]"
    by (simp add: sigs filter_finished_map)
  have l: "last (signals (process e w)) = finished ok msg"
    by (simp add: sigs)
  show ?thesis
    using s r100 r d by (simp only: pv f l) simp
qed

theorem process_notifications_witness:
  "100 \<in> set (progress_values (signals (process env0 worker_cap)))
   \<and> progress_values (signals (process env0 worker_cap))
       = [20, 40, 60, 60, 63, 67, 71, 75, 79, 83, 87, 91, 95, 100]
   \<and> sorted (progress_values (signals (process env0 worker_cap)))
   \<and> raster (process env0 worker_cap) \<noteq> None
   \<and> (\<exists>ok msg. drop (length (signals (process env0 worker_cap)) - 2)
                   (signals (process env0 worker_cap))
                 = [progress 100, finished ok msg])
   \<and> length (filter is_finished (signals (process env0 worker_cap))) = 1"
proof -
  have b: "build_images worker_cap
      = [Image 2000 2000 (\<lambda>x y. 5), Null, Null, Null, Null, Null, Null, Null, Null]"
    by (simp add: build_images_def worker_cap_def upto.simps)
  have g: "gridSize worker_cap = 3" "maxCollageSize worker_cap = 4000"
    "outputPath worker_cap = ''out.png''"
    by (simp_all add: worker_cap_def)
  have sg: "signals (process env0 worker_cap)
      = [progress 20, progress 40, progress 60, progress 60, progress 63, progress 67,
         progress 71, progress 75, progress 79, progress 83, progress 87, progress 91,
         progress 95, progress 100, finished True (Saved 3999 ''out.png'')]"
    by (simp add: process_def b g cropCenterToSquare_def Let_def INT_MAX_def size_cap_def
        cdiv_def cmod_def QImage_sized_def save_def env0_def)
  have pv: "progress_values (signals (process env0 worker_cap))
       = [20, 40, 60, 60, 63, 67, 71, 75, 79, 83, 87, 91, 95, 100]"
    by (simp add: sg)
  have h: "100 \<in> set (progress_values (signals (process env0 worker_cap)))"
    by (simp add: pv)
  show ?thesis
    using h pv process_notifications [of env0 worker_cap] by blast
qed

subsection \<open>A cap below the grid size\<close>

lemma paint_loop_Null: "fst (paint_loop e N cs n i ps (Null, sigs)) = Null"
proof -
  have "isNull (fst (paint_loop e N cs n i ps (Null, sigs)))"
    by (simp add: paint_loop_dims)
  then show ?thesis
    by (cases "fst (paint_loop e N cs n i ps (Null, sigs))") simp_all
qed

text \<open>
  C9. With at least one image present, \<open>N * minSize > M\<close> and a cap \<open>0 \<le> M < N\<close>, the clamp
  gives cell size \<open>M div N = 0\<close> and collage size 0. No error is reported at the clamp:
  \<open>process\<close> goes on to construct \<open>QImage(0, 0)\<close>, the null image, runs the paint loop,
  and only the failed save ends the job, after \<open>progress 100\<close>.
\<close>

theorem zero_cell_size:
  assumes present: "\<exists>img\<in>set (build_images w). \<not> isNull img"
    and valid: "\<forall>img\<in>set (build_images w). valid_image img"
    and exceeds: "gridSize w * minSize_of w > maxCollageSize w"
    and cap: "0 \<le> maxCollageSize w"
    and small: "maxCollageSize w < gridSize w"
  shows "size_cap (gridSize w) (maxCollageSize w) (minSize_of w) = (0, 0)
       \<and> raster (process e w) = Some (QImage_sized 0 0)
       \<and> QImage_sized 0 0 = Null
       \<and> written (process e w) = None
       \<and> signals (process e w)
           = [progress 20, progress 40, progress 60]
             @ map (\<lambda>k. progress (paint_progress (length (processedImages_of w)) k))
                   [0..<length (processedImages_of w)]
             @ [progress 95, progress 100, finished False SaveError]"
proof -
  note m = minSize_of_present [OF present valid]
  have N: "1 \<le> gridSize w" using present by (rule gridSize_present)
  have "maxCollageSize w div gridSize w = 0"
    using cap small by (simp add: div_pos_pos_trivial)
  then have sc: "size_cap (gridSize w) (maxCollageSize w) (minSize_of w) = (0, 0)"
    using exceeds size_cap_nonneg(1) [OF N cap m(2)] by simp
  have ne: "minSize_of w \<noteq> INT_MAX" using m(3) by simp
  have z: "QImage_sized 0 0 = Null" by (simp add: QImage_sized_def)
  show ?thesis
    by (simp add: sc z process_minSize [OF ne] Let_def paint_loop_Null paint_loop_signals
        save_def)
qed

theorem zero_cell_size_witness:
  "(\<exists>img\<in>set (build_images worker_tiny_cap). \<not> isNull img)
   \<and> list_all valid_image (build_images worker_tiny_cap)
   \<and> gridSize worker_tiny_cap * minSize_of worker_tiny_cap > maxCollageSize worker_tiny_cap
   \<and> 0 \<le> maxCollageSize worker_tiny_cap
   \<and> maxCollageSize worker_tiny_cap < gridSize worker_tiny_cap
   \<and> minSize_of worker_tiny_cap = 4
   \<and> size_cap 2 1 4 = (0, 0)
   \<and> raster (process env0 worker_tiny_cap) = Some Null
   \<and> written (process env0 worker_tiny_cap) = None
   \<and> signals (process env0 worker_tiny_cap)
       = [progress 20, progress 40, progress 60, progress 60, progress 68, progress 77,
          progress 86, progress 95, progress 100, finished False SaveError]"
proof -
  have b: "build_images worker_tiny_cap = [Null, Image 6 4 (\<lambda>x y. 5), Null, Null]"
    by (simp add: build_images_def worker_tiny_cap_def upto.simps)
  have g: "gridSize worker_tiny_cap = 2" "maxCollageSize worker_tiny_cap = 1"
    by (simp_all add: worker_tiny_cap_def)
  have m: "minSize_of worker_tiny_cap = 4"
    by (simp add: minSize_of_def b cropCenterToSquare_def Let_def INT_MAX_def)
  have l: "length (processedImages_of worker_tiny_cap) = 4"
    by (simp add: processedImages_of_eq b)
  have u: "[0..<4] = [0, 1, 2, 3]"
    by (simp add: upt_rec)
  have h1: "\<exists>img\<in>set (build_images worker_tiny_cap). \<not> isNull img"
    by (simp add: b)
  have h2: "\<forall>img\<in>set (build_images worker_tiny_cap). valid_image img"
    by (simp add: b INT_MAX_def)
  have h3: "gridSize worker_tiny_cap * minSize_of worker_tiny_cap > maxCollageSize worker_tiny_cap"
    by (simp add: g m)
  have h4: "0 \<le> maxCollageSize worker_tiny_cap"
    and h5: "maxCollageSize worker_tiny_cap < gridSize worker_tiny_cap"
    by (simp_all add: g)
  have z: "QImage_sized 0 0 = Null" by (simp add: QImage_sized_def)
  show ?thesis
    using h1 h2 h3 h4 h5 zero_cell_size [OF h1 h2 h3 h4 h5, of env0]
    by (simp add: g m l u z list_all_iff paint_progress_def cdiv_def)
qed

subsection \<open>The paint loop\<close>

lemma pixel_drawImage:
  "pixel (drawImage e c x y s) px py =
     (if \<not> isNull c \<and> \<not> isNull s \<and> 0 \<le> px \<and> px < width c \<and> 0 \<le> py \<and> py < height c
         \<and> x \<le> px \<and> px < x + width s \<and> y \<le> py \<and> py < y + height s
      then over e (pixel s (px - x) (py - y)) (pixel c px py)
      else pixel c px py)"
  by (cases c; cases s) simp_all

lemma scaled_dims:
  "width (scaled e p cs cs) = (if isNull p \<or> cs \<le> 0 then 0 else cs)"
  "height (scaled e p cs cs) = (if isNull p \<or> cs \<le> 0 then 0 else cs)"
  "isNull (scaled e p cs cs) = (isNull p \<or> cs \<le> 0)"
  by (cases p; simp)+

lemma paint_loop_Cons:
  "fst (paint_loop e N cs n i (p # ps) (c, sigs))
     = fst (paint_loop e N cs n (Suc i) ps
         (if \<not> isNull p
          then drawImage e c (cmod (int i) N * cs) (cdiv (int i) N * cs) (scaled e p cs cs)
          else c,
          sigs @ [progress (60 + cdiv (int i * 35) (int n))]))"
  by (simp add: Let_def)

lemma paint_step_untouched:
  assumes "\<not> isNull p \<longrightarrow> \<not> in_cell N cs i px py"
  shows "pixel (if \<not> isNull p
          then drawImage e c (cmod (int i) N * cs) (cdiv (int i) N * cs) (scaled e p cs cs)
          else c) px py = pixel c px py"
  using assms by (auto simp: pixel_drawImage scaled_dims in_cell_def)

lemma paint_untouched:
  assumes "\<forall>k<length ps. \<not> isNull (ps ! k) \<longrightarrow> \<not> in_cell N cs (i + k) px py"
  shows "pixel (fst (paint_loop e N cs n i ps (c, sigs))) px py = pixel c px py"
  using assms
proof (induction ps arbitrary: i c sigs)
  case Nil
  then show ?case by simp
next
  case (Cons p ps)
  have first: "\<not> isNull p \<longrightarrow> \<not> in_cell N cs i px py"
    using Cons.prems by (auto dest: spec [of _ 0])
  have rest: "\<forall>k<length ps. \<not> isNull (ps ! k) \<longrightarrow> \<not> in_cell N cs (Suc i + k) px py"
  proof (intro allI impI)
    fix k assume "k < length ps" "\<not> isNull (ps ! k)"
    then show "\<not> in_cell N cs (Suc i + k) px py"
      using Cons.prems by (auto dest!: spec [of _ "Suc k"])
  qed
  show ?case
    by (simp only: paint_loop_Cons Cons.IH [OF rest] paint_step_untouched [OF first])
qed

lemma strip_unique:
  assumes "1 \<le> (cs::int)" and "a * cs \<le> p" and "p < a * cs + cs"
    and "b * cs \<le> p" and "p < b * cs + cs"
  shows "a = b"
proof -
  have "p div cs = a"
    using assms(1,2,3) by (intro int_div_pos_eq [where r = "p - a * cs"]) simp_all
  moreover have "p div cs = b"
    using assms(1,4,5) by (intro int_div_pos_eq [where r = "p - b * cs"]) simp_all
  ultimately show ?thesis by simp
qed

lemma in_cell_unique:
  assumes "1 \<le> N" and "1 \<le> cs" and "in_cell N cs i px py" and "in_cell N cs j px py"
  shows "i = j"
proof -
  have d: "cdiv (int i) N = int i div N" "cdiv (int j) N = int j div N"
    and m: "cmod (int i) N = int i mod N" "cmod (int j) N = int j mod N"
    using assms(1) by (simp_all add: cdiv_nonneg cmod_nonneg)
  have "int i mod N = int j mod N"
    using assms(2,3,4) unfolding in_cell_def m by (intro strip_unique [of cs _ px]) simp_all
  moreover have "int i div N = int j div N"
    using assms(2,3,4) unfolding in_cell_def d by (intro strip_unique [of cs _ py]) simp_all
  ultimately have "int i = int j"
    by (metis mult_div_mod_eq)
  then show ?thesis by simp
qed

lemma paint_step_painted:
  assumes "\<not> isNull p" and "1 \<le> cs" and "in_cell N cs i px py"
    and "0 \<le> px" "px < width c" "0 \<le> py" "py < height c"
  shows "pixel (if \<not> isNull p
          then drawImage e c (cmod (int i) N * cs) (cdiv (int i) N * cs) (scaled e p cs cs)
          else c) px py
       = over e (pixel (scaled e p cs cs) (px - cmod (int i) N * cs) (py - cdiv (int i) N * cs))
           (pixel c px py)"
proof -
  have "\<not> isNull c" using assms(4,5) by (cases c) simp_all
  then show ?thesis
    using assms by (simp add: pixel_drawImage scaled_dims in_cell_def)
qed

lemma paint_painted:
  assumes "1 \<le> N" and "1 \<le> cs" and "j < length ps" and "\<not> isNull (ps ! j)"
    and "in_cell N cs (i + j) px py"
    and "0 \<le> px" "px < width c" "0 \<le> py" "py < height c"
  shows "pixel (fst (paint_loop e N cs n i ps (c, sigs))) px py
       = over e (pixel (scaled e (ps ! j) cs cs)
                   (px - cmod (int (i + j)) N * cs) (py - cdiv (int (i + j)) N * cs))
           (pixel c px py)"
  using assms(3-)
proof (induction ps arbitrary: i j c sigs)
  case Nil
  then show ?case by simp
next
  case (Cons p ps)
  let ?c' = "if \<not> isNull p
          then drawImage e c (cmod (int i) N * cs) (cdiv (int i) N * cs) (scaled e p cs cs)
          else c"
  show ?case
  proof (cases j)
    case 0
    then have p: "\<not> isNull p" and ic: "in_cell N cs i px py"
      using Cons.prems by simp_all
    have later: "\<forall>k<length ps. \<not> isNull (ps ! k) \<longrightarrow> \<not> in_cell N cs (Suc i + k) px py"
      using in_cell_unique [OF assms(1,2) ic] by fastforce
    show ?thesis
      using paint_step_painted [OF p assms(2) ic Cons.prems(4-7), of e]
      by (simp only: paint_loop_Cons paint_untouched [OF later]) (simp add: 0)
  next
    case (Suc j')
    have ic: "in_cell N cs (Suc i + j') px py" using Cons.prems(3) Suc by simp
    have "\<not> in_cell N cs i px py"
      using in_cell_unique [OF assms(1,2) ic] by fastforce
    then have same: "pixel ?c' px py = pixel c px py"
      by (intro paint_step_untouched) simp
    have dims: "px < width ?c'" "py < height ?c'"
      using Cons.prems(5,7) by (simp_all add: drawImage_dims)
    have "pixel (fst (paint_loop e N cs n (Suc i) ps
            (?c', sigs @ [progress (60 + cdiv (int i * 35) (int n))]))) px py
       = over e (pixel (scaled e (ps ! j') cs cs)
                   (px - cmod (int (Suc i + j')) N * cs) (py - cdiv (int (Suc i + j')) N * cs))
           (pixel ?c' px py)"
      using Cons.prems(1,2) Suc
      by (intro Cons.IH [OF _ _ ic Cons.prems(4) dims(1) Cons.prems(6) dims(2)]) simp_all
    then show ?thesis
      by (simp only: paint_loop_Cons same) (simp add: Suc)
  qed
qed

subsection \<open>The cell sequence\<close>

lemma concat_map_nth:
  assumes "k < length xs * length ys"
  shows "concat (map (\<lambda>a. map (f a) ys) xs) ! k
       = f (xs ! (k div length ys)) (ys ! (k mod length ys))"
  using assms
proof (induction xs arbitrary: k)
  case Nil
  then show ?case by simp
next
  case (Cons a xs)
  show ?case
  proof (cases "k < length ys")
    case True
    then show ?thesis by (simp add: nth_append)
  next
    case False
    then have ge: "length ys \<le> k" by simp
    have pos: "0 < length ys"
      using Cons.prems by (cases "length ys = 0") simp_all
    have "k - length ys < length xs * length ys"
      using Cons.prems ge by simp
    then have "concat (map (\<lambda>a. map (f a) ys) xs) ! (k - length ys)
        = f (xs ! ((k - length ys) div length ys)) (ys ! ((k - length ys) mod length ys))"
      by (rule Cons.IH)
    moreover have "k div length ys = Suc ((k - length ys) div length ys)"
      using ge pos by (simp add: le_div_geq)
    moreover have "k mod length ys = (k - length ys) mod length ys"
      using ge by (simp add: le_mod_geq)
    ultimately show ?thesis
      using False by (simp add: nth_append)
  qed
qed

lemma build_images_nth:
  assumes "i < nat (gridSize w) * nat (gridSize w)"
  shows "build_images w ! i
       = (case map_of (imageData w) (int i div gridSize w, int i mod gridSize w) of
            Some d \<Rightarrow> image d | None \<Rightarrow> Null)"
proof -
  let ?N = "gridSize w"
  have N: "0 < ?N" using assms by (cases "0 < ?N") simp_all
  have len: "length [0..?N - 1] = nat ?N" by simp
  have q: "i div nat ?N < nat ?N"
    using assms N by (simp add: less_mult_imp_div_less)
  have r: "i mod nat ?N < nat ?N" using N by simp
  have qi: "int (i div nat ?N) = int i div ?N"
    using N by (simp add: zdiv_int)
  have ri: "int (i mod nat ?N) = int i mod ?N"
    using N by (simp add: zmod_int)
  have "0 + int (i div nat ?N) \<le> ?N - 1" using q by linarith
  then have a: "[0..?N - 1] ! (i div nat ?N) = int i div ?N"
    by (simp only: nth_upto qi)
  have "0 + int (i mod nat ?N) \<le> ?N - 1" using r by linarith
  then have b: "[0..?N - 1] ! (i mod nat ?N) = int i mod ?N"
    by (simp only: nth_upto ri)
  show ?thesis
    unfolding build_images_def
    using assms by (subst concat_map_nth) (simp_all only: len a b)
qed

subsection \<open>The raster\<close>

lemma pixel_fill_sized: "1 \<le> s \<Longrightarrow> pixel (fill white (QImage_sized s s)) px py = white"
  by (simp add: QImage_sized_def)

lemma cell_inside:
  assumes "1 \<le> (N::int)" and "0 \<le> cs" and "0 \<le> a" and "a < N" and "0 \<le> x" and "x < cs"
  shows "0 \<le> a * cs + x" and "a * cs + x < N * cs"
proof -
  show "0 \<le> a * cs + x" using assms by simp
  have "(a + 1) * cs \<le> N * cs"
    using assms by (intro mult_right_mono) simp_all
  then show "a * cs + x < N * cs"
    using assms(6) by (simp add: algebra_simps)
qed

text \<open>
  C2. When at least one cell holds an image (and the cap is a pixel count, \<open>0 \<le> M\<close>), the
  raster \<open>c\<close> that \<open>process\<close> allocates is square of side \<open>collageSize = N * cs\<close>, where
  \<open>cs\<close> is the final cell size. The sequence has \<open>N * N\<close> cells and cell \<open>i\<close> is the cell of
  the store at row \<open>i div N\<close> and column \<open>i mod N\<close>. A present cell is resized to exactly
  \<open>cs\<close> by \<open>cs\<close> and composed over the white fill at offset \<open>(col * cs, row * cs)\<close>; the
  region of an absent cell stays white; every such region lies inside the raster. Absent
  cells are not an error: the terminal signal reports only whether the save succeeded.
\<close>

theorem composite_raster:
  fixes e :: env and w :: worker
  defines "N \<equiv> gridSize w"
  defines "cs \<equiv> fst (size_cap (gridSize w) (maxCollageSize w) (minSize_of w))"
  defines "side \<equiv> snd (size_cap (gridSize w) (maxCollageSize w) (minSize_of w))"
  assumes present: "\<exists>img\<in>set (build_images w). \<not> isNull img"
    and valid: "\<forall>img\<in>set (build_images w). valid_image img"
    and cap: "0 \<le> maxCollageSize w"
  shows "\<exists>c. raster (process e w) = Some c
       \<and> width c = side \<and> height c = side \<and> side = N * cs
       \<and> length (processedImages_of w) = nat N * nat N
       \<and> (\<forall>i<nat N * nat N.
            processedImages_of w ! i
              = crop_cell (case map_of (imageData w) (int i div N, int i mod N) of
                             Some d \<Rightarrow> image d | None \<Rightarrow> Null)
          \<and> (\<not> isNull (processedImages_of w ! i) \<longrightarrow>
                width (scaled e (processedImages_of w ! i) cs cs) = cs
              \<and> height (scaled e (processedImages_of w ! i) cs cs) = cs)
          \<and> (\<forall>x y. 0 \<le> x \<and> x < cs \<and> 0 \<le> y \<and> y < cs \<longrightarrow>
                (int i mod N) * cs + x < side \<and> (int i div N) * cs + y < side
              \<and> pixel c ((int i mod N) * cs + x) ((int i div N) * cs + y)
                  = (if isNull (processedImages_of w ! i) then white
                     else over e (pixel (scaled e (processedImages_of w ! i) cs cs) x y) white)))
       \<and> last (signals (process e w))
           = finished (save e c (outputPath w))
               (if save e c (outputPath w) then Saved side (outputPath w) else SaveError)"
proof -
  note m = minSize_of_present [OF present valid]
  have N: "1 \<le> N" unfolding N_def using present by (rule gridSize_present)
  note sc = size_cap_nonneg [OF N [unfolded N_def] cap m(2)]
  have cs0: "0 \<le> cs" and side0: "0 \<le> side"
    using sc(2,3) by (simp_all add: cs_def side_def)
  have side: "side = N * cs"
    using sc(1) by (simp add: cs_def side_def N_def split: if_splits)
  let ?ps = "processedImages_of w"
  let ?n = "length ?ps"
  let ?blank = "fill white (QImage_sized side side)"
  let ?start = "[progress 20, progress 40, progress 60]"
  let ?c = "fst (paint_loop e N cs ?n 0 ?ps (?blank, ?start))"
  have ne: "minSize_of w \<noteq> INT_MAX" using m(3) by simp
  have r: "raster (process e w) = Some ?c"
    by (simp add: process_minSize [OF ne] Let_def cs_def side_def N_def)
  have wc: "width ?c = side" and hc: "height ?c = side"
    by (simp_all only: paint_loop_dims dims_fill_sized [OF side0])
  have len: "?n = nat N * nat N"
    by (simp add: processedImages_of_eq length_build_images N_def)
  have nth: "?ps ! i = crop_cell (case map_of (imageData w) (int i div N, int i mod N) of
                             Some d \<Rightarrow> image d | None \<Rightarrow> Null)"
    if "i < nat N * nat N" for i
    using that
    by (simp add: processedImages_of_eq length_build_images build_images_nth N_def)
  have sd: "width (scaled e (?ps ! i) cs cs) = cs \<and> height (scaled e (?ps ! i) cs cs) = cs"
    if "\<not> isNull (?ps ! i)" for i
    using that cs0 by (simp add: scaled_dims)
  have px: "(int i mod N) * cs + x < side \<and> (int i div N) * cs + y < side
          \<and> pixel ?c ((int i mod N) * cs + x) ((int i div N) * cs + y)
              = (if isNull (?ps ! i) then white
                 else over e (pixel (scaled e (?ps ! i) cs cs) x y) white)"
    if i: "i < nat N * nat N" and xy: "0 \<le> x \<and> x < cs \<and> 0 \<le> y \<and> y < cs" for i x y
  proof -
    let ?px = "(int i mod N) * cs + x" and ?py = "(int i div N) * cs + y"
    have cs1: "1 \<le> cs" using xy by simp
    have col: "0 \<le> int i mod N" "int i mod N < N" using N by simp_all
    have "int i < int (nat N * nat N)" using i by (simp only: of_nat_less_iff)
    moreover have "int (nat N * nat N) = N * N" using N by simp
    ultimately have "int i < N * N" by simp
    then have row: "0 \<le> int i div N" "int i div N < N"
      using N by (simp_all add: pos_imp_zdiv_nonneg_iff zdiv_less_bound)
    have inx: "0 \<le> ?px" "?px < side"
      unfolding side using cell_inside [OF N cs0 col] xy by simp_all
    have iny: "0 \<le> ?py" "?py < side"
      unfolding side using cell_inside [OF N cs0 row] xy by simp_all
    have d: "cdiv (int i) N = int i div N" and mo: "cmod (int i) N = int i mod N"
      using N by (simp_all add: cdiv_nonneg cmod_nonneg)
    have ic: "in_cell N cs (0 + i) ?px ?py"
      using xy by (simp add: in_cell_def d mo)
    have side1: "1 \<le> side" using inx by simp
    have p0: "pixel ?blank ?px ?py = white" using side1 by (rule pixel_fill_sized)
    have pixel: "pixel ?c ?px ?py
              = (if isNull (?ps ! i) then white
                 else over e (pixel (scaled e (?ps ! i) cs cs) x y) white)"
    proof (cases "isNull (?ps ! i)")
      case True
      have "\<forall>k<?n. \<not> isNull (?ps ! k) \<longrightarrow> \<not> in_cell N cs (0 + k) ?px ?py"
      proof (intro allI impI notI)
        fix k assume "\<not> isNull (?ps ! k)" and "in_cell N cs (0 + k) ?px ?py"
        then have "0 + i = 0 + k" by (intro in_cell_unique [OF N cs1 ic])
        then show False using True \<open>\<not> isNull (?ps ! k)\<close> by simp
      qed
      then have "pixel ?c ?px ?py = pixel ?blank ?px ?py"
        by (rule paint_untouched)
      then show ?thesis using True p0 by simp
    next
      case False
      have w0: "?px < width ?blank" and h0: "?py < height ?blank"
        using inx iny by (simp_all add: dims_fill_sized side0)
      have "pixel ?c ?px ?py
          = over e (pixel (scaled e (?ps ! i) cs cs)
                      (?px - cmod (int (0 + i)) N * cs) (?py - cdiv (int (0 + i)) N * cs))
              (pixel ?blank ?px ?py)"
        using i len by (intro paint_painted [OF N cs1 _ False ic inx(1) w0 iny(1) h0]) simp
      then show ?thesis using False p0 by (simp add: d mo)
    qed
    show ?thesis using inx iny pixel by simp
  qed
  have lastsig: "last (signals (process e w))
           = finished (save e ?c (outputPath w))
               (if save e ?c (outputPath w) then Saved side (outputPath w) else SaveError)"
    by (simp add: process_minSize [OF ne] Let_def cs_def side_def N_def)
  have cells: "\<forall>i<nat N * nat N.
            ?ps ! i = crop_cell (case map_of (imageData w) (int i div N, int i mod N) of
                             Some d \<Rightarrow> image d | None \<Rightarrow> Null)
          \<and> (\<not> isNull (?ps ! i) \<longrightarrow>
                width (scaled e (?ps ! i) cs cs) = cs \<and> height (scaled e (?ps ! i) cs cs) = cs)
          \<and> (\<forall>x y. 0 \<le> x \<and> x < cs \<and> 0 \<le> y \<and> y < cs \<longrightarrow>
                (int i mod N) * cs + x < side \<and> (int i div N) * cs + y < side
              \<and> pixel ?c ((int i mod N) * cs + x) ((int i div N) * cs + y)
                  = (if isNull (?ps ! i) then white
                     else over e (pixel (scaled e (?ps ! i) cs cs) x y) white))"
  proof (intro allI impI conjI)
    fix i assume i: "i < nat N * nat N"
    show "?ps ! i = crop_cell (case map_of (imageData w) (int i div N, int i mod N) of
                             Some d \<Rightarrow> image d | None \<Rightarrow> Null)"
      using i by (rule nth)
    show "width (scaled e (?ps ! i) cs cs) = cs" if "\<not> isNull (?ps ! i)"
      using sd [OF that] by simp
    show "height (scaled e (?ps ! i) cs cs) = cs" if "\<not> isNull (?ps ! i)"
      using sd [OF that] by simp
    fix x y assume xy: "0 \<le> x \<and> x < cs \<and> 0 \<le> y \<and> y < cs"
    show "(int i mod N) * cs + x < side" using px [OF i xy] by simp
    show "(int i div N) * cs + y < side" using px [OF i xy] by simp
    show "pixel ?c ((int i mod N) * cs + x) ((int i div N) * cs + y)
                  = (if isNull (?ps ! i) then white
                     else over e (pixel (scaled e (?ps ! i) cs cs) x y) white)"
      using px [OF i xy] by simp
  qed
  show ?thesis
    by (intro exI [of _ ?c] conjI r wc hc side len cells lastsig)
qed

theorem composite_raster_witness:
  "(\<exists>img\<in>set (build_images worker_two). \<not> isNull img)
   \<and> list_all valid_image (build_images worker_two)
   \<and> 0 \<le> maxCollageSize worker_two
   \<and> (\<exists>c. raster (process env0 worker_two) = Some c
          \<and> width c = 4 \<and> height c = 4
          \<and> pixel c 0 0 = 5 \<and> pixel c 2 0 = white \<and> pixel c 1 3 = white \<and> pixel c 2 3 = 9
          \<and> last (signals (process env0 worker_two)) = finished True (Saved 4 ''out.png''))"
proof -
  have b: "build_images worker_two = [Image 2 2 (\<lambda>x y. 5), Null, Null, Image 4 4 (\<lambda>x y. 9)]"
    by (simp add: build_images_def worker_two_def upto.simps)
  have g: "gridSize worker_two = 2" "maxCollageSize worker_two = 1000"
    "outputPath worker_two = ''out.png''"
    by (simp_all add: worker_two_def)
  have h1: "\<exists>img\<in>set (build_images worker_two). \<not> isNull img"
    by (simp add: b)
  have h2: "\<forall>img\<in>set (build_images worker_two). valid_image img"
    by (simp add: b INT_MAX_def)
  have h3: "0 \<le> maxCollageSize worker_two"
    by (simp add: g)
  have m: "minSize_of worker_two = 2"
    by (simp add: minSize_of_def b cropCenterToSquare_def Let_def INT_MAX_def)
  have s: "size_cap 2 1000 2 = (2, 4)"
    by (simp add: size_cap_def Let_def)
  have ps: "processedImages_of worker_two
      = [cropCenterToSquare (Image 2 2 (\<lambda>x y. 5)), Null, Null,
         cropCenterToSquare (Image 4 4 (\<lambda>x y. 9))]"
    by (simp add: processedImages_of_eq b crop_cell_def)
  have cs: "fst (size_cap 2 1000 (minSize_of worker_two)) = 2"
    and side: "snd (size_cap 2 1000 (minSize_of worker_two)) = 4"
    by (simp_all add: m s)
  note T = composite_raster [OF h1 h2 h3, of env0, unfolded g, unfolded cs side]
  from T obtain c where r: "raster (process env0 worker_two) = Some c"
    and wh: "width c = 4" "height c = 4"
    and cells0: "\<forall>i<nat 2 * nat 2.
            processedImages_of worker_two ! i
              = crop_cell (case map_of (imageData worker_two) (int i div 2, int i mod 2) of
                             Some d \<Rightarrow> image d | None \<Rightarrow> Null)
          \<and> (\<not> isNull (processedImages_of worker_two ! i) \<longrightarrow>
                width (scaled env0 (processedImages_of worker_two ! i) 2 2) = 2
              \<and> height (scaled env0 (processedImages_of worker_two ! i) 2 2) = 2)
          \<and> (\<forall>x y. 0 \<le> x \<and> x < 2 \<and> 0 \<le> y \<and> y < 2 \<longrightarrow>
                (int i mod 2) * 2 + x < 4 \<and> (int i div 2) * 2 + y < 4
              \<and> pixel c ((int i mod 2) * 2 + x) ((int i div 2) * 2 + y)
                  = (if isNull (processedImages_of worker_two ! i) then white
                     else over env0 (pixel (scaled env0 (processedImages_of worker_two ! i) 2 2) x y) white))"
    and l: "last (signals (process env0 worker_two))
           = finished (save env0 c ''out.png'')
               (if save env0 c ''out.png'' then Saved 4 ''out.png'' else SaveError)"
    by (elim exE conjE) (rule that; assumption)
  have cells: "pixel c ((int i mod 2) * 2 + x) ((int i div 2) * 2 + y)
          = (if isNull (processedImages_of worker_two ! i) then white
             else over env0 (pixel (scaled env0 (processedImages_of worker_two ! i) 2 2) x y) white)"
    if "i < 4" "0 \<le> x \<and> x < 2 \<and> 0 \<le> y \<and> y < 2" for i x y
  proof -
    have "i < nat 2 * nat 2" using that(1) by simp
    then show ?thesis using cells0 that(2) by blast
  qed
  have "\<not> isNull c" using wh by (cases c) simp_all
  then have sv: "save env0 c ''out.png''" by (simp add: save_def env0_def)
  have p00: "pixel c 0 0 = 5"
    using cells [of 0 0 0]
    by (simp add: ps cropCenterToSquare_def Let_def cdiv_def env0_def)
  have p20: "pixel c 2 0 = white"
    using cells [of 1 0 0] by (simp add: ps)
  have p13: "pixel c 1 3 = white"
    using cells [of 2 1 1] by (simp add: ps)
  have p23: "pixel c 2 3 = 9"
    using cells [of 3 0 1]
    by (simp add: ps cropCenterToSquare_def Let_def cdiv_def env0_def)
  show ?thesis
    using h1 h2 h3 r wh p00 p20 p13 p23 l sv by (simp add: list_all_iff)
qed

subsection \<open>Assigning an image to a cell\<close>

lemma map_of_put: "map_of (put k v kvs) = (map_of kvs)(k \<mapsto> v)"
proof (induction kvs)
  case Nil
  then show ?case by simp
next
  case (Cons kv kvs)
  obtain k' v' where kv: "kv = (k', v')" by (cases kv)
  show ?case
    by (auto simp: kv Cons.IH fun_upd_twist)
qed

text \<open>
  C10. When the lower-cased suffix of the dropped file is not one of \<open>jpg\<close>, \<open>jpeg\<close>, \<open>png\<close>,
  \<open>bmp\<close>, \<open>gif\<close>, \<open>tiff\<close>, \<open>webp\<close>, or the file does not decode, \<open>onImageDropped\<close> returns
  with the store exactly as it was (nothing created, overwritten or removed); it only
  shows a message box.
\<close>

theorem rejected_drop_keeps_store:
  assumes "toLower (suffix filePath)
             \<notin> {''jpg'', ''jpeg'', ''png'', ''bmp'', ''gif'', ''tiff'', ''webp''}
           \<or> isNull (decode e filePath)"
  shows "\<exists>a'. onImageDropped e a row col filePath = Returns a'
            \<and> imageData a' = imageData a
            \<and> dialogs a' \<noteq> dialogs a"
  using assms by (auto simp: onImageDropped_def validExtensions_def Let_def)

theorem rejected_drop_keeps_store_witness:
  "toLower (suffix ''notes.TXT'') \<notin> {''jpg'', ''jpeg'', ''png'', ''bmp'', ''gif'', ''tiff'', ''webp''}
   \<and> toLower (suffix ''gone.PNG'') = ''png''
   \<and> isNull (decode env0 ''gone.PNG'')
   \<and> (\<exists>a'. onImageDropped env0 app_three 0 0 ''notes.TXT'' = Returns a'
           \<and> imageData a' = imageData app_three)
   \<and> (\<exists>a'. onImageDropped env0 app_three 0 0 ''gone.PNG'' = Returns a'
           \<and> imageData a' = imageData app_three)"
proof -
  have h1: "toLower (suffix ''notes.TXT'')
              \<notin> {''jpg'', ''jpeg'', ''png'', ''bmp'', ''gif'', ''tiff'', ''webp''}"
    by (simp add: toLower_def suffix_def fileName_def lower_char_def Let_def)
  have s2: "toLower (suffix ''gone.PNG'') = ''png''"
    by code_simp
  have h2: "isNull (decode env0 ''gone.PNG'')"
    by (simp add: env0_def)
  show ?thesis
    using h1 s2 h2
      rejected_drop_keeps_store [of "''notes.TXT''" env0 app_three 0 0, OF disjI1, OF h1]
      rejected_drop_keeps_store [of "''gone.PNG''" env0 app_three 0 0, OF disjI2, OF h2]
    by blast
qed

text \<open>
  C8, as the claim states it, fails: \<open>onImageDropped\<close> has no check of the coordinate. On a
  3 by 3 grid, a drop at \<open>(5, 5)\<close> of a file that decodes is not rejected: the entry is
  written to the store, and the lookup of the thumbnail cell then leaves the matrix.
\<close>

theorem assign_out_of_range_counterexample:
  "gridSize app_three = 3
   \<and> map fst (imageData app_three) = [(0, 0)]
   \<and> onImageDropped env0 app_three 5 5 ''a.png''
       = OutOfRange (app_three\<lparr>imageData :=
           put (5, 5) \<lparr>path = ''a.png'', image = decode env0 ''a.png''\<rparr> (imageData app_three)\<rparr>)
   \<and> map fst (put (5, 5) \<lparr>path = ''a.png'', image = decode env0 ''a.png''\<rparr>
                 (imageData app_three)) = [(0, 0), (5, 5)]"
proof -
  have s: "toLower (suffix ''a.png'') = ''png''"
    by code_simp
  have d: "\<not> isNull (decode env0 ''a.png'')"
    by (simp add: env0_def)
  have c: "cells app_three = 3" "gridSize app_three = 3"
    "map fst (imageData app_three) = [(0, 0)]"
    by (simp_all add: app_three_def)
  have p: "map fst (put (5, 5) \<lparr>path = ''a.png'', image = decode env0 ''a.png''\<rparr>
                 (imageData app_three)) = [(0, 0), (5, 5)]"
    by (simp add: app_three_def)
  show ?thesis
    using d by (simp add: onImageDropped_def s validExtensions_def Let_def c p)
qed

text \<open>
  C8, amended. For every call of \<open>onImageDropped\<close> whose coordinate lies outside the current
  grid (\<open>row < 0\<close>, \<open>row \<ge> N\<close>, \<open>col < 0\<close> or \<open>col \<ge> N\<close>, the cell matrix having the grid's
  dimension), the coordinate is not checked and no out-of-bounds error exists. The call
  is rejected only as a call at any coordinate is: for an extension that is not accepted
  or a file that does not decode it returns with the store unchanged and a message box.
  Otherwise the entry is written to the store at that coordinate, nothing is reported,
  and the lookup \<open>cells[row][col]\<close> that follows is outside the cell matrix.
\<close>

theorem assign_out_of_range_not_rejected:
  assumes "row < 0 \<or> gridSize a \<le> row \<or> col < 0 \<or> gridSize a \<le> col"
    and "cells a = gridSize a"
  shows "onImageDropped e a row col filePath =
          (if toLower (suffix filePath)
                \<notin> {''jpg'', ''jpeg'', ''png'', ''bmp'', ''gif'', ''tiff'', ''webp''}
           then Returns (a\<lparr>dialogs := dialogs a @ [NotAnImage]\<rparr>)
           else if isNull (decode e filePath)
           then Returns (a\<lparr>dialogs := dialogs a @ [LoadFailed]\<rparr>)
           else OutOfRange (a\<lparr>imageData :=
                  put (row, col) \<lparr>path = filePath, image = decode e filePath\<rparr> (imageData a)\<rparr>))
       \<and> map_of (put (row, col) \<lparr>path = filePath, image = decode e filePath\<rparr> (imageData a))
             (row, col)
           = Some \<lparr>path = filePath, image = decode e filePath\<rparr>"
  using assms
  by (auto simp: onImageDropped_def validExtensions_def Let_def map_of_put)

theorem assign_out_of_range_not_rejected_witness:
  "(-1::int) < 0
   \<and> gridSize app_three \<le> 3
   \<and> cells app_three = gridSize app_three
   \<and> toLower (suffix ''a.png'') = ''png''
   \<and> \<not> isNull (decode env0 ''a.png'')
   \<and> onImageDropped env0 app_three (-1) 0 ''a.png''
       = OutOfRange (app_three\<lparr>imageData :=
           put (-1, 0) \<lparr>path = ''a.png'', image = decode env0 ''a.png''\<rparr> (imageData app_three)\<rparr>)
   \<and> map fst (put (-1, 0) \<lparr>path = ''a.png'', image = decode env0 ''a.png''\<rparr>
                 (imageData app_three)) = [(-1, 0), (0, 0)]
   \<and> onImageDropped env0 app_three 0 3 ''notes.TXT''
       = Returns (app_three\<lparr>dialogs := dialogs app_three @ [NotAnImage]\<rparr>)"
proof -
  have s: "toLower (suffix ''a.png'') = ''png''"
    by code_simp
  have t: "toLower (suffix ''notes.TXT'') = ''txt''"
    by code_simp
  have d: "\<not> isNull (decode env0 ''a.png'')"
    by (simp add: env0_def)
  have h1: "(-1::int) < 0 \<or> gridSize app_three \<le> -1 \<or> (0::int) < 0 \<or> gridSize app_three \<le> 0"
    by simp
  have h1': "(0::int) < 0 \<or> gridSize app_three \<le> 0 \<or> (3::int) < 0 \<or> gridSize app_three \<le> 3"
    by (simp add: app_three_def)
  have h2: "cells app_three = gridSize app_three"
    by (simp add: app_three_def)
  have p: "map fst (put (-1, 0) \<lparr>path = ''a.png'', image = decode env0 ''a.png''\<rparr>
                 (imageData app_three)) = [(-1, 0), (0, 0)]"
    by (simp add: app_three_def)
  have a: "onImageDropped env0 app_three (-1) 0 ''a.png''
       = OutOfRange (app_three\<lparr>imageData :=
           put (-1, 0) \<lparr>path = ''a.png'', image = decode env0 ''a.png''\<rparr> (imageData app_three)\<rparr>)"
    using assign_out_of_range_not_rejected [OF h1 h2, of env0 "''a.png''"] d
    by (simp add: s)
  have b: "onImageDropped env0 app_three 0 3 ''notes.TXT''
       = Returns (app_three\<lparr>dialogs := dialogs app_three @ [NotAnImage]\<rparr>)"
    using assign_out_of_range_not_rejected [OF h1' h2, of env0 "''notes.TXT''"]
    by (simp add: t)
  have g: "gridSize app_three \<le> 3"
    by (simp add: app_three_def)
  show ?thesis
    using g h2 s d a p b by simp
qed

subsection \<open>Changing the grid size\<close>

text \<open>
  When every stored file is still on disk as it was stored, a change of the grid size
  keeps exactly the entries inside the new bounds, unchanged.
\<close>

lemma restore_loop_stable:
  assumes "list_all (on_disk e) oldData" and "distinct (map fst oldData)" and "cells a = n"
  shows "\<exists>a'. restore_loop e n oldData (Returns a) = Returns a'
            \<and> gridSize a' = gridSize a \<and> cells a' = cells a \<and> dialogs a' = dialogs a
            \<and> (\<forall>k. map_of (imageData a') k
                  = (case map_of (filter (in_bounds n) oldData) k of
                       Some d \<Rightarrow> Some d | None \<Rightarrow> map_of (imageData a) k))"
  using assms
proof (induction oldData arbitrary: a)
  case Nil
  then show ?case by simp
next
  case (Cons entry oldData)
  obtain row col d where entry: "entry = ((row, col), d)"
    by (cases entry) auto
  have rest: "list_all (on_disk e) oldData" "distinct (map fst oldData)"
    using Cons.prems by simp_all
  have fresh: "map_of (filter (in_bounds n) oldData) (row, col) = None"
  proof -
    have "(row, col) \<notin> fst ` set oldData" using Cons.prems(2) by (simp add: entry)
    then have "(row, col) \<notin> fst ` set (filter (in_bounds n) oldData)" by auto
    then show ?thesis by (simp add: map_of_eq_None_iff)
  qed
  show ?case
  proof (cases "row < n \<and> col < n")
    case False
    then have nb: "filter (in_bounds n) (entry # oldData) = filter (in_bounds n) oldData"
      by (auto simp add: in_bounds_def entry)
    have step: "restore_loop e n (entry # oldData) (Returns a)
        = restore_loop e n oldData (Returns a)"
      using False by (auto simp add: entry)
    from Cons.IH [OF rest Cons.prems(3)] show ?thesis
      by (simp only: step nb)
  next
    case True
    then have ib: "in_bounds n entry" by (simp add: in_bounds_def entry)
    have od: "toLower (suffix (path d)) \<in> set validExtensions"
      "decode e (path d) = image d" "\<not> isNull (image d)" "0 \<le> row" "0 \<le> col"
      using Cons.prems(1) by (simp_all add: on_disk_def entry)
    let ?a1 = "a\<lparr>imageData := put (row, col) d (imageData a)\<rparr>"
    have d: "\<lparr>path = path d, image = image d\<rparr> = d"
      by (cases d) simp
    have drop: "onImageDropped e a row col (path d) = Returns ?a1"
      using od True Cons.prems(3) by (simp add: onImageDropped_def Let_def d)
    have c1: "cells ?a1 = n" using Cons.prems(3) by simp
    from Cons.IH [OF rest c1] obtain a'
      where a': "restore_loop e n oldData (Returns ?a1) = Returns a'"
        and keep: "gridSize a' = gridSize ?a1" "cells a' = cells ?a1" "dialogs a' = dialogs ?a1"
        and look: "\<forall>k. map_of (imageData a') k
                  = (case map_of (filter (in_bounds n) oldData) k of
                       Some d \<Rightarrow> Some d | None \<Rightarrow> map_of (imageData ?a1) k)"
      by blast
    have step: "restore_loop e n (entry # oldData) (Returns a)
        = restore_loop e n oldData (Returns ?a1)"
      using True drop by (simp add: entry)
    have "map_of (imageData a') k
        = (case map_of (filter (in_bounds n) (entry # oldData)) k of
             Some d \<Rightarrow> Some d | None \<Rightarrow> map_of (imageData a) k)" for k
    proof (cases "k = (row, col)")
      case True
      have "map_of (imageData a') (row, col) = Some d"
        using look [rule_format, of "(row, col)"] fresh by (simp add: map_of_put)
      then show ?thesis using ib by (simp add: True entry)
    next
      case False
      have "map_of (imageData a') k
          = (case map_of (filter (in_bounds n) oldData) k of
               Some d \<Rightarrow> Some d | None \<Rightarrow> map_of (imageData a) k)"
        using look [rule_format, of k] False by (simp add: map_of_put split: option.splits)
      then show ?thesis using ib False by (simp add: entry)
    qed
    then show ?thesis
      using a' keep by (simp only: step) simp
  qed
qed

lemma map_of_filter_in_bounds:
  "map_of (filter (in_bounds n) kvs) (row, col)
     = (if row < n \<and> col < n then map_of kvs (row, col) else None)"
  by (induction kvs) (auto simp: in_bounds_def)

lemma grid_change_with_files_unchanged:
  assumes "list_all (on_disk e) (imageData a)" and "distinct (map fst (imageData a))"
    and "list_all (in_bounds (gridSize a)) (imageData a)"
  shows "\<exists>a'. onGridSizeChanged e a newSize = Returns a'
            \<and> gridSize a' = newSize
            \<and> (\<forall>row col. map_of (imageData a') (row, col)
                  = (if row < newSize \<and> col < newSize then map_of (imageData a) (row, col)
                     else None))"
proof (cases "newSize = gridSize a")
  case True
  have "filter (in_bounds (gridSize a)) (imageData a) = imageData a"
    using assms(3) by (simp add: list_all_iff)
  then have "map_of (imageData a) (row, col)
      = (if row < newSize \<and> col < newSize then map_of (imageData a) (row, col) else None)"
    for row col
    using map_of_filter_in_bounds [of "gridSize a" "imageData a" row col] by (simp add: True)
  then show ?thesis
    by (simp add: onGridSizeChanged_def True)
next
  case False
  let ?a2 = "recreateGrid (a\<lparr>gridSize := newSize, imageData := []\<rparr>)"
  have c: "cells ?a2 = newSize" by (simp add: recreateGrid_def)
  from restore_loop_stable [OF assms(1,2) c] obtain a'
    where a': "restore_loop e newSize (imageData a) (Returns ?a2) = Returns a'"
      and g: "gridSize a' = gridSize ?a2"
      and look: "\<forall>k. map_of (imageData a') k
                  = (case map_of (filter (in_bounds newSize) (imageData a)) k of
                       Some d \<Rightarrow> Some d | None \<Rightarrow> map_of (imageData ?a2) k)"
    by blast
  have "map_of (imageData a') (row, col)
      = (if row < newSize \<and> col < newSize then map_of (imageData a) (row, col) else None)"
    for row col
    using look [rule_format, of "(row, col)"]
    by (simp add: map_of_filter_in_bounds recreateGrid_def split: option.splits)
  then show ?thesis
    using a' g False by (simp add: onGridSizeChanged_def Let_def recreateGrid_def)
qed

text \<open>
  For instance, with both files on disk, shrinking the 2 by 2 grid to 1 by 1 keeps the
  entry at \<open>(0, 0)\<close> and drops the one at \<open>(1, 1)\<close>.
\<close>

lemma grid_change_shrink_example:
  "\<exists>a'. onGridSizeChanged env0 app_two 1 = Returns a'
      \<and> gridSize a' = 1
      \<and> map_of (imageData a') (0, 0) = map_of (imageData app_two) (0, 0)
      \<and> map_of (imageData a') (1, 1) = None"
proof -
  have sa: "toLower (suffix ''a.png'') = ''png''" and sb: "toLower (suffix ''b.png'') = ''png''"
    by code_simp+
  have d: "imageData app_two
      = [((0, 0), \<lparr>path = ''a.png'', image = Image 2 2 (\<lambda>x y. 5)\<rparr>),
         ((1, 1), \<lparr>path = ''b.png'', image = Image 4 4 (\<lambda>x y. 9)\<rparr>)]"
    and g: "gridSize app_two = 2"
    by (simp_all add: app_two_def worker_two_def)
  have h1: "list_all (on_disk env0) (imageData app_two)"
    by (simp add: d on_disk_def sa sb validExtensions_def env0_def)
  have h2: "distinct (map fst (imageData app_two))"
    by (simp add: d)
  have h3: "list_all (in_bounds (gridSize app_two)) (imageData app_two)"
    by (simp add: d g in_bounds_def)
  from grid_change_with_files_unchanged [OF h1 h2 h3, of 1]
  obtain a' where "onGridSizeChanged env0 app_two 1 = Returns a'" and "gridSize a' = 1"
    and "\<forall>row col. map_of (imageData a') (row, col)
           = (if row < 1 \<and> col < 1 then map_of (imageData app_two) (row, col) else None)"
    by blast
  then show ?thesis by simp
qed

text \<open>
  C5 does not hold of the code for every store state: the entries that fit the new grid
  are not kept, they are decoded again from their paths. With \<open>a.png\<close> deleted after it
  was dropped at \<open>(0, 0)\<close>, growing the grid from 3 to 4 loses the entry, although \<open>(0, 0)\<close>
  is inside the new bounds.
\<close>

theorem grid_change_drops_undecodable_entry:
  "gridSize app_three = 3
   \<and> map fst (imageData app_three) = [(0, 0)]
   \<and> onGridSizeChanged env_deleted app_three 4
       = Returns (app_three\<lparr>gridSize := 4, imageData := [], cells := 4, dialogs := [LoadFailed]\<rparr>)"
proof -
  have s: "toLower (suffix ''a.png'') = ''png''"
    by code_simp
  show ?thesis
    by (simp add: onGridSizeChanged_def app_three_def recreateGrid_def Let_def
        onImageDropped_def s validExtensions_def env_deleted_def)
qed

subsection \<open>Cancelling a job\<close>

text \<open>A cancellation request changes nothing in what the thread does.\<close>

lemma canceled_run_unchanged: "run_thread e (canceled j) = run_thread e j"
  by (simp add: run_thread_def canceled_def)

text \<open>
  C6 does not hold of the code: with the cancel button pressed before the first cell is
  painted, the job still runs to its end, writes the file and reports success.
\<close>

theorem cancel_before_paint_still_writes:
  "createCollage app_two ''out.png'' = (app_two, Some job_two)
   \<and> quit (canceled job_two)
   \<and> map_option fst (written (run_thread env0 (canceled job_two))) = Some ''out.png''
   \<and> last (signals (run_thread env0 (canceled job_two))) = finished True (Saved 4 ''out.png'')"
proof -
  have c: "createCollage app_two ''out.png'' = (app_two, Some job_two)"
    by (simp add: createCollage_def app_two_def job_two_def worker_two_def)
  have b: "build_images worker_two = [Image 2 2 (\<lambda>x y. 5), Null, Null, Image 4 4 (\<lambda>x y. 9)]"
    by (simp add: build_images_def worker_two_def upto.simps)
  have g: "gridSize worker_two = 2" "maxCollageSize worker_two = 1000"
    "outputPath worker_two = ''out.png''"
    by (simp_all add: worker_two_def)
  have r: "run_thread env0 (canceled job_two) = process env0 worker_two"
    by (simp add: run_thread_def canceled_def job_two_def)
  have w: "map_option fst (written (process env0 worker_two)) = Some ''out.png''"
    by (simp add: process_def b g cropCenterToSquare_def Let_def INT_MAX_def size_cap_def
        cdiv_def cmod_def QImage_sized_def save_def env0_def)
  have l: "last (signals (process env0 worker_two)) = finished True (Saved 4 ''out.png'')"
    by (simp add: process_def b g cropCenterToSquare_def Let_def INT_MAX_def size_cap_def
        cdiv_def cmod_def QImage_sized_def save_def env0_def)
  have q: "quit (canceled job_two)"
    by (simp add: canceled_def)
  show ?thesis
    using c q w l by (simp only: r)
qed

end
